theory Spec2Isabelle
  imports Complex_Main "HOL-Library.Word"
begin

section \<open>JavaScript values and the coercion \<open>Number(id)\<close>\<close>

text \<open>
  \<open>deleteFile\<close> passes \<open>Number(id)\<close> to the object store. A JavaScript number is
  modelled by its mathematical value: \<open>NaN\<close>, the two infinities, or a rational (the
  sign of zero is dropped: \<open>-0\<close> and \<open>0\<close> are the same IndexedDB key). A string is a list
  of code units below 256.
\<close>

datatype number = NaN | PosInf | NegInf | Fin rat

datatype jsval = JUndefined | JNull | JBool bool | JNum number | JStr string

subsection \<open>Rounding a mathematical value to binary64\<close>

fun bits :: "nat \<Rightarrow> nat" where
  "bits n = (if n = 0 then 0 else Suc (bits (n div 2)))"

declare bits.simps [simp del]

definition ilog2 :: "rat \<Rightarrow> int" where
  \<comment> \<open>for \<open>0 < q\<close>: the exponent \<open>e\<close> with \<open>2^e \<le> q < 2^(e+1)\<close>\<close>
  "ilog2 q = (if 1 \<le> q then int (bits (nat \<lfloor>q\<rfloor>)) - 1
              else - int (bits (nat (\<lceil>1 / q\<rceil> - 1))))"

definition round_half_even :: "rat \<Rightarrow> int" where
  "round_half_even q =
     (let f = \<lfloor>q\<rfloor>; d = q - of_int f
      in if d < 1 / 2 then f else if 1 / 2 < d then f + 1
         else if even f then f else f + 1)"

definition binary64 :: "rat \<Rightarrow> number" where
  \<comment> \<open>round to nearest, ties to even, 53 significant bits, exponents -1022..1023\<close>
  "binary64 q =
     (if q = 0 then Fin 0
      else let a = \<bar>q\<bar>;
               e = max (ilog2 a) (- 1022);
               u = power_int 2 (e - 52);
               r = of_int (round_half_even (a / u)) * u
           in if power_int 2 1024 \<le> r then (if q < 0 then NegInf else PosInf)
              else Fin (if q < 0 then - r else r))"

subsection \<open>StringToNumber\<close>

definition isWhiteSpace :: "char \<Rightarrow> bool" where
  \<comment> \<open>TAB, LF, VT, FF, CR, SP, NBSP: the StrWhiteSpaceChar code units below 256\<close>
  "isWhiteSpace c = ((of_char c :: nat) \<in> {9, 10, 11, 12, 13, 32, 160})"

definition isDigit :: "char \<Rightarrow> bool" where
  "isDigit c = (48 \<le> (of_char c :: nat) \<and> (of_char c :: nat) \<le> 57)"

definition digitVal :: "char \<Rightarrow> nat" where
  \<comment> \<open>value of a digit in any radix up to 16; 16 marks a character that is no digit\<close>
  "digitVal c =
     (let n = (of_char c :: nat)
      in if 48 \<le> n \<and> n \<le> 57 then n - 48
         else if 97 \<le> n \<and> n \<le> 102 then n - 87
         else if 65 \<le> n \<and> n \<le> 70 then n - 55
         else 16)"

definition radixValue :: "nat \<Rightarrow> string \<Rightarrow> nat" where
  "radixValue b ds = foldl (\<lambda>a c. b * a + digitVal c) 0 ds"

definition radixLiteral :: "nat \<Rightarrow> string \<Rightarrow> nat option" where
  "radixLiteral b ds =
     (if ds \<noteq> [] \<and> list_all (\<lambda>c. digitVal c < b) ds then Some (radixValue b ds) else None)"

definition trimString :: "string \<Rightarrow> string" where
  "trimString s = rev (dropWhile isWhiteSpace (rev (dropWhile isWhiteSpace s)))"

definition nonDecimalIntegerLiteral :: "string \<Rightarrow> nat option" where
  "nonDecimalIntegerLiteral t =
     (case t of
        z # c # ds \<Rightarrow>
          if z \<noteq> CHR ''0'' then None
          else if c = CHR ''x'' \<or> c = CHR ''X'' then radixLiteral 16 ds
          else if c = CHR ''o'' \<or> c = CHR ''O'' then radixLiteral 8 ds
          else if c = CHR ''b'' \<or> c = CHR ''B'' then radixLiteral 2 ds
          else None
      | _ \<Rightarrow> None)"

definition decimalDigits :: "string \<Rightarrow> int option" where
  "decimalDigits d =
     (if d \<noteq> [] \<and> list_all isDigit d then Some (int (radixValue 10 d)) else None)"

definition exponentPart :: "string \<Rightarrow> int option" where
  "exponentPart r =
     (case r of
        [] \<Rightarrow> Some 0
      | c # v \<Rightarrow>
          if c = CHR ''e'' \<or> c = CHR ''E'' then
            (case v of
               s # d \<Rightarrow>
                 if s = CHR ''+'' then decimalDigits d
                 else if s = CHR ''-'' then map_option uminus (decimalDigits d)
                 else decimalDigits v
             | [] \<Rightarrow> None)
          else None)"

definition strUnsignedDecimalLiteral :: "bool \<Rightarrow> string \<Rightarrow> number" where
  "strUnsignedDecimalLiteral neg u =
     (if u = ''Infinity'' then (if neg then NegInf else PosInf)
      else
        let ip = takeWhile isDigit u;
            r1 = dropWhile isDigit u;
            fp = (case r1 of c # v \<Rightarrow> if c = CHR ''.'' then takeWhile isDigit v else []
                  | [] \<Rightarrow> []);
            r2 = (case r1 of c # v \<Rightarrow> if c = CHR ''.'' then dropWhile isDigit v else r1
                  | [] \<Rightarrow> [])
        in if ip = [] \<and> fp = [] then NaN
           else (case exponentPart r2 of
                   None \<Rightarrow> NaN
                 | Some ex \<Rightarrow>
                     let mv = of_nat (radixValue 10 (ip @ fp)) / 10 ^ length fp * power_int 10 ex
                     in binary64 (if neg then - mv else mv)))"

definition strDecimalLiteral :: "string \<Rightarrow> number" where
  "strDecimalLiteral t =
     (case t of
        c # u \<Rightarrow>
          if c = CHR ''+'' then strUnsignedDecimalLiteral False u
          else if c = CHR ''-'' then strUnsignedDecimalLiteral True u
          else strUnsignedDecimalLiteral False t
      | [] \<Rightarrow> NaN)"

definition StringToNumber :: "string \<Rightarrow> number" where
  "StringToNumber s =
     (let t = trimString s
      in if t = [] then Fin 0
         else (case nonDecimalIntegerLiteral t of
                 Some n \<Rightarrow> binary64 (of_nat n)
               | None \<Rightarrow> strDecimalLiteral t))"

fun Number :: "jsval \<Rightarrow> number" where
  "Number JUndefined = NaN"
| "Number JNull = Fin 0"
| "Number (JBool b) = Fin (if b then 1 else 0)"
| "Number (JNum n) = n"
| "Number (JStr s) = StringToNumber s"

subsection \<open>The decimal string of an id\<close>

text \<open>
  The data table writes \<open>data-id="${f.id}"\<close> and reads it back as \<open>btn.dataset.id\<close>: the
  id as a string of decimal digits (ids stay below \<open>10^21\<close>, where Number::toString
  switches to exponent notation).
\<close>

definition digitChar :: "nat \<Rightarrow> char" where
  "digitChar d = ''0123456789'' ! d"

fun toString :: "nat \<Rightarrow> string" where
  "toString n = (if n < 10 then [digitChar n] else toString (n div 10) @ [digitChar (n mod 10)])"

declare toString.simps [simp del]

section \<open>The record store\<close>

text \<open>
  \<open>app.js\<close> keeps its records in the object store \<open>files\<close> of the IndexedDB database
  \<open>files-db-v1\<close>, created with \<open>{ keyPath: 'id', autoIncrement: true }\<close>. The model
  is sequential: one call runs to its resolution before the next starts, and a request
  that succeeds commits. What the engine decides on its own (a refused open, a failed
  request, a failed file read) is an input of each call.
\<close>

type_synonym byte = "8 word"

record File =
  name_f :: string
  type_f :: string
  bytes_f :: "byte list"

definition size_f :: "File \<Rightarrow> nat" where
  "size_f f = length (bytes_f f)"

text \<open>The object built by \<open>addFileRecord\<close>, and the stored value with its key injected.\<close>

record rec =
  name_r :: string
  type_r :: string
  size_r :: nat
  uploadedAt_r :: string
  dataURL_r :: string

record stored = rec +
  id_r :: nat

datatype error =
    OpenError          \<comment> \<open>\<open>req.onerror\<close> of \<open>indexedDB.open\<close>\<close>
  | NotFoundError      \<comment> \<open>\<open>database.transaction\<close> on a database without the store\<close>
  | DataError          \<comment> \<open>\<open>store.delete\<close> on a value that is not a valid key\<close>
  | ConstraintError    \<comment> \<open>\<open>store.add\<close>: key generator exhausted, or key already present\<close>
  | RequestError       \<comment> \<open>\<open>onerror\<close> of an add, getAll or delete request\<close>
  | ReaderError        \<comment> \<open>\<open>reader.onerror\<close> of the FileReader\<close>

record env =
  open_fails :: bool
  request_fails :: bool
  reader_fails :: bool
  written_type :: "string \<Rightarrow> string"
    \<comment> \<open>the media type that the engine's FileReader writes for a given \<open>file.type\<close>\<close>

record objstore =
  records :: "stored list"   \<comment> \<open>in ascending key order, the order of \<open>getAll\<close>\<close>
  keygen :: nat              \<comment> \<open>the key generator's current number\<close>

type_synonym handle = nat

datatype txmode = ReadOnly | ReadWrite

record world =
  db :: "handle option"            \<comment> \<open>the global \<open>db\<close>\<close>
  version :: nat                   \<comment> \<open>version of \<open>files-db-v1\<close>; 0 when it does not exist\<close>
  files :: "objstore option"       \<comment> \<open>its object store \<open>files\<close>\<close>
  conns :: nat                     \<comment> \<open>connections opened by \<open>indexedDB.open\<close> so far\<close>
  txlog :: "(handle \<times> txmode) list"  \<comment> \<open>transactions started, oldest first\<close>
  status :: string                 \<comment> \<open>text of \<open>#upload-status\<close>\<close>

definition max_key :: nat where
  "max_key = 2 ^ 53"

definition createObjectStore :: objstore where
  "createObjectStore = \<lparr>records = [], keygen = 1\<rparr>"

definition openDB :: "env \<Rightarrow> world \<Rightarrow> (error + handle) \<times> world" where
  "openDB e w =
     (case db w of
        Some h \<Rightarrow> (Inr h, w)
      | None \<Rightarrow>
          if open_fails e \<or> 1 < version w then (Inl OpenError, w)
          else
            let w1 = (if version w < 1
                      then w\<lparr>version := 1,
                             files := (case files w of
                                         None \<Rightarrow> Some createObjectStore
                                       | Some s \<Rightarrow> Some s)\<rparr>
                      else w);
                h = conns w1
            in (Inr h, w1\<lparr>db := Some h, conns := Suc h\<rparr>))"

definition transaction :: "handle \<Rightarrow> txmode \<Rightarrow> world \<Rightarrow> (error + objstore) \<times> world" where
  \<comment> \<open>\<open>database.transaction(STORE_NAME, mode).objectStore(STORE_NAME)\<close>\<close>
  "transaction h m w =
     (case files w of
        None \<Rightarrow> (Inl NotFoundError, w)
      | Some s \<Rightarrow> (Inr s, w\<lparr>txlog := txlog w @ [(h, m)]\<rparr>))"

definition store_add :: "rec \<Rightarrow> objstore \<Rightarrow> error + nat \<times> objstore" where
  \<comment> \<open>\<open>store.add(rec)\<close>: \<open>rec\<close> has no \<open>id\<close>, so the key comes from the generator\<close>
  "store_add r s =
     (let key = keygen s
      in if max_key < key then Inl ConstraintError
         else if key \<in> id_r ` set (records s) then Inl ConstraintError
         else Inr (key, \<lparr>records = insort_key id_r (rec.extend r \<lparr>id_r = key\<rparr>) (records s),
                          keygen = key + 1\<rparr>))"

definition store_delete :: "number \<Rightarrow> objstore \<Rightarrow> error + objstore" where
  \<comment> \<open>\<open>store.delete(key)\<close>: every number but NaN is a valid key\<close>
  "store_delete key s =
     (if key = NaN then Inl DataError
      else Inr (s\<lparr>records := filter (\<lambda>x. Fin (of_nat (id_r x)) \<noteq> key) (records s)\<rparr>))"

definition addFileRecord ::
  "File \<Rightarrow> string \<Rightarrow> string \<Rightarrow> env \<Rightarrow> world \<Rightarrow> (error + nat) \<times> world" where
  \<comment> \<open>the third argument is the clock: the value of \<open>new Date().toISOString()\<close>\<close>
  "addFileRecord file dataURL now e w =
     (case openDB e w of
        (Inl err, w1) \<Rightarrow> (Inl err, w1)
      | (Inr database, w1) \<Rightarrow>
          (case transaction database ReadWrite w1 of
             (Inl err, w2) \<Rightarrow> (Inl err, w2)
           | (Inr store, w2) \<Rightarrow>
               let r = \<lparr>name_r = name_f file, type_r = type_f file, size_r = size_f file,
                        uploadedAt_r = now, dataURL_r = dataURL\<rparr>
               in if request_fails e then (Inl RequestError, w2)
                  else (case store_add r store of
                          Inl err \<Rightarrow> (Inl err, w2)
                        | Inr (key, store') \<Rightarrow> (Inr key, w2\<lparr>files := Some store'\<rparr>))))"

definition getAllFiles :: "env \<Rightarrow> world \<Rightarrow> (error + stored list) \<times> world" where
  "getAllFiles e w =
     (case openDB e w of
        (Inl err, w1) \<Rightarrow> (Inl err, w1)
      | (Inr database, w1) \<Rightarrow>
          (case transaction database ReadOnly w1 of
             (Inl err, w2) \<Rightarrow> (Inl err, w2)
           | (Inr store, w2) \<Rightarrow>
               if request_fails e then (Inl RequestError, w2)
               else (Inr (records store), w2)))"

definition deleteFile :: "jsval \<Rightarrow> env \<Rightarrow> world \<Rightarrow> (error + unit) \<times> world" where
  "deleteFile ident e w =
     (case openDB e w of
        (Inl err, w1) \<Rightarrow> (Inl err, w1)
      | (Inr database, w1) \<Rightarrow>
          (case transaction database ReadWrite w1 of
             (Inl err, w2) \<Rightarrow> (Inl err, w2)
           | (Inr store, w2) \<Rightarrow>
               (case store_delete (Number ident) store of
                  Inl err \<Rightarrow> (Inl err, w2)
                | Inr store' \<Rightarrow>
                    if request_fails e then (Inl RequestError, w2)
                    else (Inr (), w2\<lparr>files := Some store'\<rparr>))))"

definition stored_of :: "world \<Rightarrow> stored list" where
  \<comment> \<open>the records of the store, none when the store does not exist\<close>
  "stored_of w = (case files w of None \<Rightarrow> [] | Some s \<Rightarrow> records s)"

definition keygen_of :: "world \<Rightarrow> nat" where
  \<comment> \<open>the next key the store will assign; a store yet to be created starts at 1\<close>
  "keygen_of w = (case files w of None \<Rightarrow> 1 | Some s \<Rightarrow> keygen s)"

definition store_inv :: "objstore \<Rightarrow> bool" where
  \<comment> \<open>keys ascending, positive, below the generator; the generator within its range\<close>
  "store_inv s =
     (sorted_wrt (<) (map id_r (records s)) \<and>
      list_all (\<lambda>x. 0 < id_r x \<and> id_r x < keygen s) (records s) \<and>
      0 < keygen s \<and> keygen s \<le> max_key + 1)"

definition wf :: "world \<Rightarrow> bool" where
  \<comment> \<open>the database is absent, or it is the one \<open>openDB\<close> creates\<close>
  "wf w =
     (case files w of
        None \<Rightarrow> version w = 0 \<and> db w = None
      | Some s \<Rightarrow> version w = 1 \<and> store_inv s)"

definition fresh :: world where
  \<comment> \<open>a browser profile that has never loaded the page\<close>
  "fresh = \<lparr>db = None, version = 0, files = None, conns = 0, txlog = [], status = []\<rparr>"

section \<open>Reading a file as a data URL\<close>

text \<open>
  \<open>fileToDataURL\<close> resolves with the result of \<open>FileReader.readAsDataURL\<close>, and the
  table hands the stored string back to the browser as \<open>img.src\<close> and \<open>a.href\<close>. Both
  ends are browser code. The writer is the File API's: \<open>data:\<close>, a media type,
  \<open>;base64,\<close> and the padded base64 text of the bytes (RFC 4648); which media type an
  engine writes for a given \<open>file.type\<close> differs between engines and is the input
  \<open>written_type\<close>. The reader is the one the standards describe: the URL parser, the
  \<open>data:\<close> URL processor of Fetch with its forgiving base64, and the MIME type parser and
  serializer of MIME Sniffing.
\<close>

subsection \<open>MIME types\<close>

text \<open>
  The classes of code points that the parser tests, ASCII lower-casing, and the removal
  of leading and trailing code points of a class.
\<close>

definition isHTTPToken :: "char \<Rightarrow> bool" where
  "isHTTPToken c =
     (let n = (of_char c :: nat)
      in n \<in> {33, 35, 36, 37, 38, 39, 42, 43, 45, 46, 94, 95, 96, 124, 126} \<or>
         (48 \<le> n \<and> n \<le> 57) \<or> (65 \<le> n \<and> n \<le> 90) \<or> (97 \<le> n \<and> n \<le> 122))"

definition isQuotedStringToken :: "char \<Rightarrow> bool" where
  "isQuotedStringToken c =
     (let n = (of_char c :: nat) in n = 9 \<or> (32 \<le> n \<and> n \<le> 126) \<or> 128 \<le> n)"

definition isHTTPWhitespace :: "char \<Rightarrow> bool" where
  "isHTTPWhitespace c = ((of_char c :: nat) \<in> {9, 10, 13, 32})"


definition asciiLower :: "char \<Rightarrow> char" where
  "asciiLower c =
     (case map_of (zip ''ABCDEFGHIJKLMNOPQRSTUVWXYZ'' ''abcdefghijklmnopqrstuvwxyz'') c of
        None \<Rightarrow> c
      | Some d \<Rightarrow> d)"

definition dropTrailing :: "(char \<Rightarrow> bool) \<Rightarrow> string \<Rightarrow> string" where
  "dropTrailing P s = rev (dropWhile P (rev s))"

definition strip :: "(char \<Rightarrow> bool) \<Rightarrow> string \<Rightarrow> string" where
  "strip P s = dropTrailing P (dropWhile P s)"

text \<open>
  A MIME type record: type, subtype, and the parameters in the order they were added.
\<close>

record mimeType =
  type_m :: string
  subtype_m :: string
  parameters_m :: "(string \<times> string) list"

text \<open>
  Collecting an HTTP quoted string, value extracted: the argument is the text after the
  opening quote, the result the value and the text after the closing quote. A backslash
  takes the next code point as it is; at the end of the text it stands for itself.
\<close>

fun collectQuoted :: "string \<Rightarrow> string \<times> string" where
  "collectQuoted [] = ([], [])"
| "collectQuoted (c # cs) =
     (if c = CHR 0x22 then ([], cs)
      else if c = CHR 0x5C then
        (case cs of
           [] \<Rightarrow> ([CHR 0x5C], [])
         | d # ds \<Rightarrow> (case collectQuoted ds of (v, r) \<Rightarrow> (d # v, r)))
      else (case collectQuoted cs of (v, r) \<Rightarrow> (c # v, r)))"

text \<open>
  One round of the parameter loop, on the text after a \<open>;\<close>: the text left to read (it
  starts at the next \<open>;\<close>, and is empty when the loop ends) and the parameters so far. A
  parameter is kept when its name is a non-empty token, its value holds quoted-string
  code points only, and no parameter of that name came before.
\<close>

definition addParameter ::
  "string \<Rightarrow> string \<Rightarrow> (string \<times> string) list \<Rightarrow> (string \<times> string) list" where
  "addParameter n v ps =
     (if n \<noteq> [] \<and> list_all isHTTPToken n \<and> list_all isQuotedStringToken v \<and>
         map_of ps n = None
      then ps @ [(n, v)] else ps)"

definition parameterStep ::
  "string \<Rightarrow> (string \<times> string) list \<Rightarrow> string \<times> (string \<times> string) list" where
  "parameterStep s ps =
     (let s1 = dropWhile isHTTPWhitespace s;
          n = map asciiLower (takeWhile (\<lambda>x. x \<noteq> CHR '';'' \<and> x \<noteq> CHR ''='') s1);
          s2 = dropWhile (\<lambda>x. x \<noteq> CHR '';'' \<and> x \<noteq> CHR ''='') s1
      in if s2 = [] then ([], ps)
         else if hd s2 = CHR '';'' then (s2, ps)
         else if tl s2 = [] then ([], ps)
         else if hd (tl s2) = CHR 0x22 then
           (case collectQuoted (tl (tl s2)) of
              (v, r) \<Rightarrow> (dropWhile (\<lambda>x. x \<noteq> CHR '';'') r, addParameter n v ps))
         else
           (let v = dropTrailing isHTTPWhitespace (takeWhile (\<lambda>x. x \<noteq> CHR '';'') (tl s2))
            in (dropWhile (\<lambda>x. x \<noteq> CHR '';'') (tl s2),
                if v = [] then ps else addParameter n v ps)))"

function parameters :: "string \<Rightarrow> (string \<times> string) list \<Rightarrow> (string \<times> string) list" where
  "parameters [] ps = ps"
| "parameters (c # s) ps = (case parameterStep s ps of (r, ps') \<Rightarrow> parameters r ps')"
  by pat_completeness auto

termination
proof (relation "measure (\<lambda>(s, ps). length s)")
  show "Wellfounded.wf (measure (\<lambda>(s, ps). length s))" by simp
  fix c :: char and s r :: string and ps ps' :: "(string \<times> string) list"
  assume st: "(r, ps') = parameterStep s ps"
  have q: "length (snd (collectQuoted xs)) \<le> length xs" for xs
  proof (induction xs rule: collectQuoted.induct)
    case 1
    show ?case by simp
  next
    case (2 c cs)
    show ?case
    proof (cases "c = CHR 0x22")
      case True
      then show ?thesis by simp
    next
      case q: False
      show ?thesis
      proof (cases "c = CHR 0x5C")
        case True
        show ?thesis
        proof (cases cs)
          case Nil
          with True show ?thesis by simp
        next
          case (Cons d ds)
          with 2(1) [OF q True Cons] True show ?thesis
            by (simp add: case_prod_beta)
        qed
      next
        case False
        with 2(2) [OF q False] q show ?thesis
          by (simp add: case_prod_beta)
      qed
    qed
  qed
  have d: "length (dropWhile P xs) \<le> length xs" for P and xs :: string
    by (rule length_dropWhile_le)
  define s2 where
    "s2 = dropWhile (\<lambda>x. x \<noteq> CHR '';'' \<and> x \<noteq> CHR ''='') (dropWhile isHTTPWhitespace s)"
  have l2: "length s2 \<le> length s"
    unfolding s2_def using d [of _ s] d [of _ "dropWhile isHTTPWhitespace s"]
    by (meson le_trans)
  have t: "length (tl s2) \<le> length s" and tt: "length (tl (tl s2)) \<le> length s"
    using l2 by simp_all
  have a: "length (dropWhile (\<lambda>x. x \<noteq> CHR '';'') (tl s2)) \<le> length s"
    using d [of "\<lambda>x. x \<noteq> CHR '';''" "tl s2"] t by simp
  have b: "length (dropWhile (\<lambda>x. x \<noteq> CHR '';'') (snd (collectQuoted (tl (tl s2))))) \<le> length s"
    using d [of "\<lambda>x. x \<noteq> CHR '';''" "snd (collectQuoted (tl (tl s2)))"] q [of "tl (tl s2)"] tt
    by simp
  have "r = fst (parameterStep s ps)" using st by (metis fst_conv)
  then have "length r \<le> length s"
    unfolding parameterStep_def Let_def s2_def [symmetric] using l2 a b
    by (simp add: case_prod_beta)
  then show "((r, ps'), c # s, ps) \<in> measure (\<lambda>(s, ps). length s)" by simp
qed

text \<open>
  Parsing: surrounding whitespace removed, a token up to \<open>/\<close>, a token up to \<open>;\<close>, both
  lower-cased, then the parameters. Serializing quotes a value that is empty or not a
  token.
\<close>

definition parseMIMEType :: "string \<Rightarrow> mimeType option" where
  "parseMIMEType input =
     (let s = strip isHTTPWhitespace input;
          ty = takeWhile (\<lambda>x. x \<noteq> CHR ''/'') s;
          r = dropWhile (\<lambda>x. x \<noteq> CHR ''/'') s;
          sub = dropTrailing isHTTPWhitespace (takeWhile (\<lambda>x. x \<noteq> CHR '';'') (tl r))
      in if ty = [] \<or> \<not> list_all isHTTPToken ty \<or> r = [] then None
         else if sub = [] \<or> \<not> list_all isHTTPToken sub then None
         else Some \<lparr>type_m = map asciiLower ty, subtype_m = map asciiLower sub,
                    parameters_m = parameters (dropWhile (\<lambda>x. x \<noteq> CHR '';'') (tl r)) []\<rparr>)"

definition quoteValue :: "string \<Rightarrow> string" where
  "quoteValue v =
     (if v = [] \<or> \<not> list_all isHTTPToken v
      then [CHR 0x22] @
           concat (map (\<lambda>c. if c = CHR 0x22 \<or> c = CHR 0x5C then [CHR 0x5C, c] else [c]) v) @
           [CHR 0x22]
      else v)"

definition serializeMIMEType :: "mimeType \<Rightarrow> string" where
  "serializeMIMEType m =
     type_m m @ ''/'' @ subtype_m m @
     concat (map (\<lambda>(n, v). '';'' @ n @ ''='' @ quoteValue v) (parameters_m m))"

subsection \<open>The writer\<close>

definition alphabet :: string where
  "alphabet = ''ABCDEFGHIJKLMNOPQRSTUVWXYZabcdefghijklmnopqrstuvwxyz0123456789+/''"

definition sextetChar :: "nat \<Rightarrow> char" where
  "sextetChar n = alphabet ! (n mod 64)"

fun base64 :: "byte list \<Rightarrow> string" where
  "base64 [] = []"
| "base64 [a] =
     (let n = unat a * 16
      in [sextetChar (n div 64), sextetChar (n mod 64), CHR ''='', CHR ''=''])"
| "base64 [a, b] =
     (let n = (unat a * 256 + unat b) * 4
      in [sextetChar (n div 4096), sextetChar (n div 64 mod 64), sextetChar (n mod 64),
          CHR ''=''])"
| "base64 (a # b # c # bs) =
     (let n = unat a * 65536 + unat b * 256 + unat c
      in [sextetChar (n div 262144), sextetChar (n div 4096 mod 64),
          sextetChar (n div 64 mod 64), sextetChar (n mod 64)] @ base64 bs)"

text \<open>
  The media type that a writer puts into the URL. One kind of engine parses \<open>file.type\<close>
  and writes its serialization, \<open>application/octet-stream\<close> when it does not parse;
  another copies \<open>file.type\<close>, and writes \<open>application/octet-stream\<close> when it is empty.
\<close>

definition serialized_type :: "string \<Rightarrow> string" where
  "serialized_type t =
     (case parseMIMEType t of
        None \<Rightarrow> ''application/octet-stream''
      | Some m \<Rightarrow> serializeMIMEType m)"


definition readAsDataURL :: "(string \<Rightarrow> string) \<Rightarrow> File \<Rightarrow> string" where
  "readAsDataURL written f =
     ''data:'' @ written (type_f f) @ '';base64,'' @ base64 (bytes_f f)"

definition fileToDataURL :: "File \<Rightarrow> env \<Rightarrow> error + string" where
  "fileToDataURL f e =
     (if reader_fails e then Inl ReaderError else Inr (readAsDataURL (written_type e) f))"


subsection \<open>Reading a data URL back\<close>




















section \<open>Batch upload\<close>

text \<open>
  \<open>handleFiles\<close> awaits \<open>fileToDataURL\<close> and then \<open>addFileRecord\<close> for each file in turn; a
  rejected promise ends the loop and leaves the status text as it is. Each file comes
  with the clock value and the engine's decisions for its turn. The timer that clears
  the status and the re-rendering that follows are not part of the model.
\<close>

fun uploadLoop :: "(File \<times> string \<times> env) list \<Rightarrow> world \<Rightarrow> error option \<times> world" where
  "uploadLoop [] w = (None, w)"
| "uploadLoop ((f, now, e) # fs) w =
     (case fileToDataURL f e of
        Inl err \<Rightarrow> (Some err, w)
      | Inr dataURL \<Rightarrow>
          (case addFileRecord f dataURL now e w of
             (Inl err, w1) \<Rightarrow> (Some err, w1)
           | (Inr key, w1) \<Rightarrow> uploadLoop fs w1))"

definition handleFiles :: "(File \<times> string \<times> env) list \<Rightarrow> world \<Rightarrow> error option \<times> world" where
  "handleFiles fs w =
     (if fs = [] then (None, w)
      else
        (case uploadLoop fs (w\<lparr>status := ''Uploading '' @ toString (length fs) @ '' file(s)...''\<rparr>) of
           (Some err, w1) \<Rightarrow> (Some err, w1)
         | (None, w1) \<Rightarrow>
             (None, w1\<lparr>status := ''Uploaded '' @ toString (length fs) @ '' file(s).''\<rparr>)))"

definition stored_as :: "File \<times> string \<times> env \<Rightarrow> nat \<Rightarrow> stored" where
  \<comment> \<open>the record that the loop writes for one file, under a given key\<close>
  "stored_as x key =
     (case x of (f, now, e) \<Rightarrow>
        \<lparr>name_r = name_f f, type_r = type_f f, size_r = size_f f, uploadedAt_r = now,
         dataURL_r = readAsDataURL (written_type e) f, id_r = key\<rparr>)"

section \<open>Sequences of calls\<close>

datatype call =
    OpenDB
  | AddFileRecord File string string
  | GetAllFiles
  | DeleteFile jsval

datatype result = Handle handle | Key nat | Listing "stored list" | Deleted

fun exec :: "call \<Rightarrow> env \<Rightarrow> world \<Rightarrow> (error + result) \<times> world" where
  "exec OpenDB e w = (case openDB e w of (r, w') \<Rightarrow> (map_sum id Handle r, w'))"
| "exec (AddFileRecord f dataURL now) e w =
     (case addFileRecord f dataURL now e w of (r, w') \<Rightarrow> (map_sum id Key r, w'))"
| "exec GetAllFiles e w = (case getAllFiles e w of (r, w') \<Rightarrow> (map_sum id Listing r, w'))"
| "exec (DeleteFile ident) e w =
     (case deleteFile ident e w of (r, w') \<Rightarrow> (map_sum id (\<lambda>_. Deleted) r, w'))"

fun run :: "(call \<times> env) list \<Rightarrow> world \<Rightarrow> (error + result) list \<times> world" where
  "run [] w = ([], w)"
| "run ((c, e) # cs) w =
     (case exec c e w of (r, w1) \<Rightarrow> (case run cs w1 of (rs, w2) \<Rightarrow> (r # rs, w2)))"

fun is_insert :: "call \<Rightarrow> bool" where
  "is_insert (AddFileRecord f dataURL now) = True"
| "is_insert c = False"

fun deletes :: "number \<Rightarrow> call \<Rightarrow> bool" where
  "deletes key (DeleteFile ident) = (Number ident = key)"
| "deletes key c = False"

fun key_of :: "error + result \<Rightarrow> nat list" where
  "key_of (Inr (Key k)) = [k]"
| "key_of r = []"

definition keys_of :: "(error + result) list \<Rightarrow> nat list" where
  \<comment> \<open>the ids resolved by the inserts of a run, in order\<close>
  "keys_of rs = concat (map key_of rs)"

section \<open>The size shown for a file\<close>





definition two_digits :: "nat \<Rightarrow> string" where
  "two_digits n = [digitChar (n div 10 mod 10), digitChar (n mod 10)]"

fun toFixed2 :: "number \<Rightarrow> string" where
  \<comment> \<open>\<open>x.toFixed(2)\<close>: the integer \<open>n\<close> nearest to \<open>100 x\<close>, the larger one on a tie\<close>
  "toFixed2 NaN = ''NaN''"
| "toFixed2 PosInf = ''Infinity''"
| "toFixed2 NegInf = ''-Infinity''"
| "toFixed2 (Fin x) =
     (let n = nat \<lfloor>100 * \<bar>x\<bar> + 1 / 2\<rfloor>
      in (if x < 0 then ''-'' else []) @ toString (n div 100) @ ''.'' @ two_digits (n mod 100))"





subsection \<open>Sample inputs\<close>

definition no_fault :: env where
  \<comment> \<open>nothing fails; the engine writes the serialization of \<open>file.type\<close> into the URL\<close>
  "no_fault = \<lparr>open_fails = False, request_fails = False, reader_fails = False,
               written_type = serialized_type\<rparr>"


definition a_txt :: File where
  "a_txt = \<lparr>name_f = ''a.txt'', type_f = ''text/plain'', bytes_f = [97, 98, 99]\<rparr>"

definition b_bin :: File where
  "b_bin = \<lparr>name_f = ''b.bin'', type_f = [], bytes_f = [0, 255]\<rparr>"



definition stocked :: world where
  \<comment> \<open>the store after one page load that uploaded \<open>a.txt\<close> and then \<open>b.bin\<close>\<close>
  "stocked =
     \<lparr>db = Some 0, version = 1,
      files = Some
        \<lparr>records =
           [\<lparr>name_r = ''a.txt'', type_r = ''text/plain'', size_r = 3,
             uploadedAt_r = ''2024-05-01T10:00:00.000Z'',
             dataURL_r = ''data:text/plain;base64,YWJj'', id_r = 1\<rparr>,
            \<lparr>name_r = ''b.bin'', type_r = [], size_r = 2,
             uploadedAt_r = ''2024-05-01T10:00:01.000Z'',
             dataURL_r = ''data:application/octet-stream;base64,AP8='', id_r = 2\<rparr>],
         keygen = 3\<rparr>,
      conns = 1, txlog = [(0, ReadWrite), (0, ReadWrite)],
      status = ''Uploaded 2 file(s).''\<rparr>"


definition uploads :: "(File \<times> string \<times> env) list" where
  \<comment> \<open>two files, nothing fails\<close>
  "uploads =
     [(a_txt, ''2024-05-01T10:00:00.000Z'', no_fault),
      (b_bin, ''2024-05-01T10:00:01.000Z'', no_fault)]"

definition batch :: "(File \<times> string \<times> env) list" where
  \<comment> \<open>three files; the insert of the second one fails\<close>
  "batch =
     [(a_txt, ''2024-05-01T10:00:00.000Z'', no_fault),
      (b_bin, ''2024-05-01T10:00:01.000Z'', no_fault\<lparr>request_fails := True\<rparr>),
      (a_txt, ''2024-05-01T10:00:02.000Z'', no_fault)]"

definition browse :: "(call \<times> env) list" where
  \<comment> \<open>calls with no insert among them\<close>
  "browse = [(GetAllFiles, no_fault), (DeleteFile (JStr ''abc''), no_fault), (OpenDB, no_fault)]"

definition two_inserts :: "(call \<times> env) list" where
  "two_inserts =
     [(AddFileRecord a_txt ''data:text/plain;base64,YWJj'' ''2024-05-02T08:00:00.000Z'', no_fault),
      (AddFileRecord b_bin ''data:application/octet-stream;base64,AP8=''
         ''2024-05-02T08:00:01.000Z'', no_fault)]"

definition churn :: "(call \<times> env) list" where
  \<comment> \<open>an insert, the deletion of record 2, a listing\<close>
  "churn =
     [(AddFileRecord b_bin ''data:application/octet-stream;base64,AP8=''
         ''2024-05-02T08:00:01.000Z'', no_fault),
      (DeleteFile (JStr ''2''), no_fault),
      (GetAllFiles, no_fault)]"

section \<open>Properties of the coercion\<close>

lemma bits_bounds: "0 < n \<Longrightarrow> 2 ^ (bits n - 1) \<le> n \<and> n < 2 ^ bits n"
proof (induction n rule: bits.induct)
  case (1 n)
  show ?case
  proof (cases "n div 2 = 0")
    case True
    with "1.prems" have "n = 1" by presburger
    then show ?thesis by (simp add: bits.simps)
  next
    case False
    then have "0 < n div 2" by simp
    with "1.IH" "1.prems" have ih: "2 ^ (bits (n div 2) - 1) \<le> n div 2" "n div 2 < 2 ^ bits (n div 2)"
      by auto
    have b: "bits n = Suc (bits (n div 2))"
      using "1.prems" by (subst bits.simps) simp
    have p: "0 < bits (n div 2)"
      using False by (subst bits.simps) simp
    then obtain m where m: "bits (n div 2) = Suc m" by (cases "bits (n div 2)") auto
    have "2 * p \<le> n \<and> n < 4 * p" if "p \<le> n div 2" and "n div 2 < 2 * p" for p
      using that by arith
    from this [of "2 ^ m"] ih show ?thesis unfolding b m by simp
  qed
qed

lemma round_half_even_of_int: "round_half_even (of_int m) = m"
  by (simp add: round_half_even_def)


lemma ilog2_of_nat: "0 < n \<Longrightarrow> ilog2 (of_nat n) = int (bits n) - 1"
  by (simp add: ilog2_def)

lemma bits_le_54:
  assumes "0 < n" and "n \<le> 2 ^ 53"
  shows "0 < bits n" and "bits n \<le> 54" and "bits n = 54 \<Longrightarrow> n = 2 ^ 53"
proof -
  note b = bits_bounds [OF assms(1)]
  show p: "0 < bits n"
    using assms(1) by (subst bits.simps) simp
  have "(2::nat) ^ (bits n - 1) < 2 ^ 54"
    using b assms(2) by (simp del: power_strict_increasing_iff)
  then have "bits n - 1 < 54" by (simp only: power_strict_increasing_iff [of "2::nat"]) 
  then show "bits n \<le> 54" by simp
  show "n = 2 ^ 53" if "bits n = 54"
    using b assms(2) that by simp
qed

lemma binary64_exact:
  assumes "0 < q" and "max (ilog2 q) (- 1022) = e"
    and "q / power_int 2 (e - 52) = of_int m" and "q < power_int 2 1024"
  shows "binary64 q = Fin q"
proof -
  have "(power_int 2 (e - 52) :: rat) \<noteq> 0" by simp
  with assms(3) have r: "of_int m * power_int 2 (e - 52) = q"
    by (simp add: field_simps)
  have a: "\<bar>q\<bar> = q" using assms(1) by simp
  have "binary64 q = (if power_int 2 1024 \<le> q then PosInf else Fin q)"
    unfolding binary64_def Let_def a assms(2) assms(3) round_half_even_of_int r
    using assms(1) by simp
  with assms(4) show ?thesis by simp
qed

lemma binary64_of_nat:
  assumes "n \<le> 2 ^ 53"
  shows "binary64 (of_nat n) = Fin (of_nat n)"
proof (cases "n = 0")
  case True
  then show ?thesis by (simp add: binary64_def)
next
  case False
  then have pos: "0 < n" by simp
  note b = bits_le_54 [OF pos assms]
  define e where "e = int (bits n) - 1"
  have e: "0 \<le> e" "e \<le> 53" using b by (simp_all add: e_def)
  have il: "max (ilog2 (of_nat n)) (- 1022) = e"
    using e by (simp add: ilog2_of_nat [OF pos] e_def)
  have "\<exists>m. (of_nat n :: rat) / power_int 2 (e - 52) = of_int m"
  proof (cases "e = 53")
    case True
    then have "n = 2 ^ 53" using b(3) by (simp add: e_def)
    then have "(of_nat n :: rat) / power_int 2 (e - 52) = of_int (2 ^ 52)"
      using True by simp
    then show ?thesis ..
  next
    case False
    with e have "e \<le> 52" by simp
    then have "(power_int 2 (e - 52) :: rat) = 1 / 2 ^ nat (52 - e)"
      by (simp add: power_int_def power_inverse field_simps)
    then have "(of_nat n :: rat) / power_int 2 (e - 52) = of_int (int n * 2 ^ nat (52 - e))"
      by simp
    then show ?thesis ..
  qed
  then obtain m where m: "(of_nat n :: rat) / power_int 2 (e - 52) = of_int m" ..
  have "(of_nat n :: rat) \<le> of_nat (2 ^ 53)"
    using assms by (simp only: of_nat_le_iff)
  also have "\<dots> < power_int 2 1024" by simp
  finally have lt: "(of_nat n :: rat) < power_int 2 1024" .
  have "(0::rat) < of_nat n" using pos by simp
  then show ?thesis using il m lt by (rule binary64_exact)
qed


lemma digitChar_props:
  assumes "d < 10"
  shows "isDigit (digitChar d)" and "digitVal (digitChar d) = d"
proof -
  from assms have "d \<in> {0, 1, 2, 3, 4, 5, 6, 7, 8, 9}" by auto
  then show "isDigit (digitChar d)" and "digitVal (digitChar d) = d"
    by (auto simp: digitChar_def isDigit_def digitVal_def)
qed

lemma isDigit_props:
  assumes "isDigit c"
  shows "\<not> isWhiteSpace c" and "c \<noteq> CHR ''x''" and "c \<noteq> CHR ''X''" and "c \<noteq> CHR ''o''"
    and "c \<noteq> CHR ''O''" and "c \<noteq> CHR ''b''" and "c \<noteq> CHR ''B''" and "c \<noteq> CHR ''+''"
    and "c \<noteq> CHR ''-''" and "c \<noteq> CHR ''I''"
  using assms by (auto simp: isDigit_def isWhiteSpace_def)

lemma radixValue_snoc: "radixValue b (ds @ [c]) = b * radixValue b ds + digitVal c"
  by (simp add: radixValue_def)

lemma toString_digits: "toString n \<noteq> [] \<and> list_all isDigit (toString n)"
proof (induction n rule: toString.induct)
  case (1 n)
  show ?case
  proof (cases "n < 10")
    case True
    then show ?thesis by (subst (1 2) toString.simps) (simp add: digitChar_props)
  next
    case False
    with 1 show ?thesis by (subst (1 2) toString.simps) (simp add: digitChar_props)
  qed
qed

lemma toString_value: "radixValue 10 (toString n) = n"
proof (induction n rule: toString.induct)
  case (1 n)
  show ?case
  proof (cases "n < 10")
    case True
    then show ?thesis
      by (subst toString.simps) (simp add: digitChar_props radixValue_def)
  next
    case False
    with 1 show ?thesis
      by (subst toString.simps) (simp add: digitChar_props radixValue_snoc)
  qed
qed

lemma trimString_digits:
  assumes "list_all isDigit s"
  shows "trimString s = s"
proof (cases "s = []")
  case True
  then show ?thesis by (simp add: trimString_def)
next
  case False
  then have "hd s \<in> set s" and "last s \<in> set s" by simp_all
  with assms have "\<not> isWhiteSpace (hd s)" and "\<not> isWhiteSpace (last s)"
    by (auto simp: list_all_iff isDigit_props(1))
  then have "dropWhile isWhiteSpace s = s"
    and "dropWhile isWhiteSpace (rev s) = rev s"
    using False by (simp_all add: dropWhile_eq_self_iff hd_rev)
  then show ?thesis by (simp add: trimString_def)
qed

lemma nonDecimal_digits:
  assumes "list_all isDigit s"
  shows "nonDecimalIntegerLiteral s = None"
proof (cases s)
  case Nil
  then show ?thesis by (simp add: nonDecimalIntegerLiteral_def)
next
  case (Cons z t)
  show ?thesis
  proof (cases t)
    case Nil
    with Cons show ?thesis by (simp add: nonDecimalIntegerLiteral_def)
  next
    case (Cons c ds)
    with assms \<open>s = z # t\<close> have "isDigit c" by simp
    note isDigit_props(2-7) [OF this]
    then show ?thesis
      by (simp add: nonDecimalIntegerLiteral_def \<open>s = z # t\<close> Cons)
  qed
qed

lemma StringToNumber_digits:
  assumes "s \<noteq> []" and "list_all isDigit s"
  shows "StringToNumber s = binary64 (of_nat (radixValue 10 s))"
proof -
  obtain c u where s: "s = c # u" using assms(1) by (cases s) auto
  with assms(2) have c: "isDigit c" by simp
  have tw: "takeWhile isDigit s = s" "dropWhile isDigit s = []"
    using assms(2) by (simp_all add: list_all_iff)
  have inf: "s \<noteq> ''Infinity''"
    using c s isDigit_props(10) [OF c] by auto
  have "strUnsignedDecimalLiteral False s = binary64 (of_nat (radixValue 10 s))"
    using assms(1) inf by (simp add: strUnsignedDecimalLiteral_def tw exponentPart_def)
  then have "strDecimalLiteral s = binary64 (of_nat (radixValue 10 s))"
    using isDigit_props(8,9) [OF c] by (simp add: strDecimalLiteral_def s)
  then show ?thesis
    using assms by (simp add: StringToNumber_def trimString_digits nonDecimal_digits)
qed

lemma Number_toString:
  assumes "k \<le> max_key"
  shows "Number (JStr (toString k)) = Fin (of_nat k)"
  using assms toString_digits [of k]
  by (simp add: StringToNumber_digits toString_value binary64_of_nat max_key_def)


section \<open>Properties of the store functions\<close>

lemma openDB_open: "db w = Some h \<Longrightarrow> openDB e w = (Inr h, w)"
  by (simp add: openDB_def)

lemma openDB_Inr:
  assumes "openDB e w = (Inr h, w1)"
  shows "db w1 = Some h" and "txlog w1 = txlog w" and "status w1 = status w"
    and "stored_of w1 = stored_of w"
    and "files w \<noteq> None \<Longrightarrow> files w1 = files w"
  using assms
  by (auto simp: openDB_def Let_def stored_of_def createObjectStore_def split: option.splits if_splits)

lemma addFileRecord_Inr:
  assumes "addFileRecord f d t e w = (Inr k, w')"
  obtains h w1 s where "openDB e w = (Inr h, w1)" and "files w1 = Some s"
    and "\<not> request_fails e" and "k = keygen s" and "k \<le> max_key"
    and "k \<notin> id_r ` set (records s)"
    and "w' = w1\<lparr>txlog := txlog w1 @ [(h, ReadWrite)],
                  files := Some \<lparr>records = insort_key id_r
                     \<lparr>name_r = name_f f, type_r = type_f f, size_r = size_f f,
                      uploadedAt_r = t, dataURL_r = d, id_r = k\<rparr> (records s),
                     keygen = k + 1\<rparr>\<rparr>"
  using assms
  by (auto simp: addFileRecord_def transaction_def store_add_def Let_def rec.extend_def
      split: prod.splits sum.splits option.splits if_splits)



lemma openDB_effect:
  assumes "openDB e w = (r, w1)"
  shows "stored_of w1 = stored_of w" and "keygen_of w1 = keygen_of w"
    and "txlog w1 = txlog w" and "status w1 = status w"
    and "wf w \<Longrightarrow> wf w1"
  using assms
  by (auto simp: openDB_def Let_def stored_of_def keygen_of_def createObjectStore_def wf_def
      store_inv_def max_key_def split: option.splits if_splits)

lemma openDB_wf_Inr:
  assumes "openDB e w = (Inr h, w1)" and "wf w"
  shows "files w1 \<noteq> None"
  using assms
  by (auto simp: openDB_def Let_def wf_def split: option.splits if_splits)

lemma openDB_succeeds:
  assumes "wf w" and "\<not> open_fails e"
  shows "\<exists>h w1. openDB e w = (Inr h, w1)"
  using assms
  by (auto simp: openDB_def Let_def wf_def split: option.splits if_splits)

lemma getAllFiles_Inr:
  assumes "getAllFiles e w = (Inr xs, w')"
  shows "xs = stored_of w"
  using assms openDB_effect(1) [of e w]
  by (auto simp: getAllFiles_def transaction_def stored_of_def
      split: prod.splits sum.splits option.splits if_splits)

lemma getAllFiles_effect:
  assumes "getAllFiles e w = (r, w')"
  shows "stored_of w' = stored_of w" and "keygen_of w' = keygen_of w" and "wf w \<Longrightarrow> wf w'"
  using assms openDB_effect(1,2,5) [of e w]
  by (auto simp: getAllFiles_def transaction_def stored_of_def keygen_of_def wf_def
      split: prod.splits sum.splits option.splits if_splits)

lemma deleteFile_Inr:
  assumes "deleteFile ident e w = (Inr u, w')"
  shows "Number ident \<noteq> NaN"
    and "stored_of w' = filter (\<lambda>x. Fin (of_nat (id_r x)) \<noteq> Number ident) (stored_of w)"
  using assms openDB_effect(1) [of e w]
  by (auto simp: deleteFile_def transaction_def store_delete_def stored_of_def
      split: prod.splits sum.splits option.splits if_splits)

lemma deleteFile_Inl:
  assumes "deleteFile ident e w = (Inl err, w')"
  shows "stored_of w' = stored_of w"
  using assms openDB_effect(1) [of e w]
  by (auto simp: deleteFile_def transaction_def store_delete_def stored_of_def
      split: prod.splits sum.splits option.splits if_splits)

lemma deleteFile_keygen:
  assumes "deleteFile ident e w = (r, w')"
  shows "keygen_of w' = keygen_of w"
  using assms openDB_effect(2) [of e w]
  by (auto simp: deleteFile_def transaction_def store_delete_def keygen_of_def
      split: prod.splits sum.splits option.splits if_splits)

lemma sorted_wrt_filter_map:
  "sorted_wrt (<) (map f xs) \<Longrightarrow> sorted_wrt (<) (map f (filter P xs))"
  by (induction xs) auto

lemma deleteFile_wf:
  assumes "deleteFile ident e w = (r, w')" and "wf w"
  shows "wf w'"
  using assms openDB_effect(5) [of e w]
  by (auto simp: deleteFile_def transaction_def store_delete_def wf_def store_inv_def
      list_all_iff sorted_wrt_filter_map
      split: prod.splits sum.splits option.splits if_splits)


lemma insort_key_last:
  "\<forall>y\<in>set xs. f y < f x \<Longrightarrow> insort_key f x xs = xs @ [x]"
  by (induction xs) auto

lemma addFileRecord_Inl:
  assumes "addFileRecord f d t e w = (Inl err, w')"
  shows "stored_of w' = stored_of w" and "keygen_of w' = keygen_of w"
  using assms openDB_effect(1,2) [of e w]
  by (auto simp: addFileRecord_def transaction_def stored_of_def keygen_of_def Let_def
      split: prod.splits sum.splits option.splits if_splits)

lemma addFileRecord_Inr_stored:
  assumes "addFileRecord f d t e w = (Inr k, w')"
  shows "stored_of w' = insort_key id_r
           \<lparr>name_r = name_f f, type_r = type_f f, size_r = size_f f,
            uploadedAt_r = t, dataURL_r = d, id_r = k\<rparr> (stored_of w)"
    and "k \<notin> id_r ` set (stored_of w)"
    and "k = keygen_of w" and "keygen_of w' = Suc k" and "k \<le> max_key"
  using assms openDB_effect(1,2) [of e w]
  by (auto simp: addFileRecord_def transaction_def store_add_def stored_of_def keygen_of_def
      rec.extend_def Let_def
      split: prod.splits sum.splits option.splits if_splits)

lemma wf_stored_below:
  assumes "wf w" and "x \<in> set (stored_of w)"
  shows "id_r x < keygen_of w" and "0 < id_r x"
  using assms
  by (auto simp: wf_def store_inv_def stored_of_def keygen_of_def list_all_iff
      split: option.splits)

lemma wf_sorted: "wf w \<Longrightarrow> sorted_wrt (<) (map id_r (stored_of w))"
  by (auto simp: wf_def store_inv_def stored_of_def split: option.splits)

lemma store_add_inv:
  assumes "store_add r s = Inr (k, s')" and "store_inv s"
  shows "store_inv s'"
  using assms
  by (auto simp: store_add_def store_inv_def rec.extend_def Let_def list_all_iff
      insort_key_last sorted_wrt_append less_Suc_eq split: if_splits)

lemma addFileRecord_wf:
  assumes "addFileRecord f d t e w = (r, w')" and "wf w"
  shows "wf w'"
proof -
  obtain q w1 where o: "openDB e w = (q, w1)" by (cases "openDB e w")
  have w1: "wf w1" using o assms(2) by (rule openDB_effect(5))
  show ?thesis
  proof (cases "files w1")
    case None
    with assms(1) o w1 show ?thesis
      by (auto simp: addFileRecord_def transaction_def split: sum.splits)
  next
    case (Some s)
    with w1 have v: "version w1 = 1" and s: "store_inv s"
      by (simp_all add: wf_def)
    have "w' = w1 \<or> w' = w1\<lparr>txlog := txlog w1 @ [(projr q, ReadWrite)]\<rparr> \<or>
          (\<exists>k s'. store_add \<lparr>name_r = name_f f, type_r = type_f f, size_r = size_f f,
                      uploadedAt_r = t, dataURL_r = d\<rparr> s = Inr (k, s') \<and>
             w' = w1\<lparr>txlog := txlog w1 @ [(projr q, ReadWrite)], files := Some s'\<rparr>)"
      using assms(1) o Some
      by (auto simp: addFileRecord_def transaction_def Let_def split: sum.splits if_splits)
    then show ?thesis
      using w1 v Some store_add_inv [OF _ s] by (auto simp: wf_def)
  qed
qed

section \<open>Properties of sequences of calls\<close>

lemma exec_wf:
  assumes "exec c e w = (r, w')" and "wf w"
  shows "wf w'"
  using assms
  by (cases c)
    (auto split: prod.splits
      dest: openDB_effect(5) addFileRecord_wf getAllFiles_effect(3) deleteFile_wf)

lemma exec_add_keygen:
  assumes "exec (AddFileRecord f d t) e w = (r, w')"
  shows "keygen_of w \<le> keygen_of w'"
    and "\<forall>k\<in>set (key_of r). keygen_of w \<le> k \<and> k < keygen_of w'"
proof -
  obtain q where q: "addFileRecord f d t e w = (q, w')" and r: "r = map_sum id Key q"
    using assms by (auto split: prod.splits)
  show "keygen_of w \<le> keygen_of w'"
  proof (cases q)
    case (Inl err)
    with q show ?thesis by (simp add: addFileRecord_Inl(2))
  next
    case (Inr k)
    with q show ?thesis
      using addFileRecord_Inr_stored(3,4) [of f d t e w k w'] by simp
  qed
  show "\<forall>k\<in>set (key_of r). keygen_of w \<le> k \<and> k < keygen_of w'"
  proof (cases q)
    case (Inl err)
    with r show ?thesis by simp
  next
    case (Inr k)
    with q r show ?thesis
      using addFileRecord_Inr_stored(3,4) [of f d t e w k w'] by simp
  qed
qed

lemma exec_keygen:
  assumes "exec c e w = (r, w')"
  shows "keygen_of w \<le> keygen_of w'"
    and "\<forall>k\<in>set (key_of r). keygen_of w \<le> k \<and> k < keygen_of w'"
proof -
  show "keygen_of w \<le> keygen_of w'"
  proof (cases c)
    case (AddFileRecord f d t)
    with assms show ?thesis using exec_add_keygen(1) [of f d t e w r w'] by simp
  qed (use assms in \<open>auto split: prod.splits
        dest: openDB_effect(2) getAllFiles_effect(2) deleteFile_keygen\<close>)
  show "\<forall>k\<in>set (key_of r). keygen_of w \<le> k \<and> k < keygen_of w'"
  proof (cases c)
    case (AddFileRecord f d t)
    with assms show ?thesis using exec_add_keygen(2) [of f d t e w r w'] by simp
  next
    case OpenDB
    with assms show ?thesis
      by (cases "fst (openDB e w)") (auto split: prod.splits)
  next
    case GetAllFiles
    with assms show ?thesis
      by (cases "fst (getAllFiles e w)") (auto split: prod.splits)
  next
    case (DeleteFile i)
    with assms show ?thesis
      by (cases "fst (deleteFile i e w)") (auto split: prod.splits)
  qed
qed

lemma exec_insert_key:
  assumes "exec c e w = (r, w')" and "is_insert c" and "\<not> isl r"
  shows "length (key_of r) = 1"
proof -
  obtain f d t where c: "c = AddFileRecord f d t"
    using assms(2) by (cases c) auto
  obtain q where "r = map_sum id Key q"
    using assms(1) c by (auto split: prod.splits)
  with assms(3) show ?thesis by (cases q) auto
qed

lemma exec_no_insert:
  assumes "exec c e w = (r, w')" and "\<not> is_insert c"
  shows "set (stored_of w') \<subseteq> set (stored_of w)"
proof (cases c)
  case (DeleteFile i)
  with assms show ?thesis
    by (cases "fst (deleteFile i e w)")
      (auto split: prod.splits dest: deleteFile_Inl deleteFile_Inr(2))
qed (use assms in \<open>auto split: prod.splits dest: openDB_effect(1) getAllFiles_effect(1)\<close>)

lemma exec_frame:
  assumes "exec c e w = (r, w')" and "x \<in> set (stored_of w)"
    and "\<not> deletes (Fin (of_nat (id_r x))) c"
  shows "x \<in> set (stored_of w')"
proof (cases c)
  case (DeleteFile i)
  with assms show ?thesis
    by (cases "fst (deleteFile i e w)")
      (auto split: prod.splits dest: deleteFile_Inl deleteFile_Inr(2))
next
  case (AddFileRecord f d t)
  with assms show ?thesis
    by (cases "fst (addFileRecord f d t e w)")
      (auto simp: set_insort_key split: prod.splits
        dest: addFileRecord_Inl(1) addFileRecord_Inr_stored(1))
qed (use assms in \<open>auto split: prod.splits dest: openDB_effect(1) getAllFiles_effect(1)\<close>)


lemma exec_handle:
  assumes "exec c e w = (r, w')" and "db w = Some h"
  shows "db w' = Some h" and "conns w' = conns w"
    and "\<exists>new. txlog w' = txlog w @ new \<and> (\<forall>t\<in>set new. fst t = h)"
proof -
  have o: "openDB e w = (Inr h, w)"
    using assms(2) by (rule openDB_open)
  have "db w' = Some h \<and> conns w' = conns w \<and>
        (txlog w' = txlog w \<or> (\<exists>m. txlog w' = txlog w @ [(h, m)]))"
  proof (cases c)
    case OpenDB
    with assms(1) o show ?thesis using assms(2) by auto
  next
    case (AddFileRecord f d t)
    with assms(1) show ?thesis using assms(2)
      by (auto simp: addFileRecord_def o transaction_def Let_def
          split: option.splits sum.splits if_splits)
  next
    case GetAllFiles
    with assms(1) show ?thesis using assms(2)
      by (auto simp: getAllFiles_def o transaction_def split: option.splits if_splits)
  next
    case (DeleteFile i)
    with assms(1) show ?thesis using assms(2)
      by (auto simp: deleteFile_def o transaction_def
          split: option.splits sum.splits if_splits)
  qed
  then show "db w' = Some h" and "conns w' = conns w"
    and "\<exists>new. txlog w' = txlog w @ new \<and> (\<forall>t\<in>set new. fst t = h)"
    by auto
qed

lemma run_wf:
  "run cs w = (rs, w') \<Longrightarrow> wf w \<Longrightarrow> wf w'"
proof (induction cs arbitrary: w rs)
  case Nil
  then show ?case by simp
next
  case (Cons a cs)
  obtain c e where a: "a = (c, e)" by (cases a)
  obtain r w1 where ex: "exec c e w = (r, w1)" by (cases "exec c e w")
  obtain rs1 where "run cs w1 = (rs1, w')"
    using Cons.prems(1) a ex by (auto split: prod.splits)
  moreover have "wf w1" using ex Cons.prems(2) by (rule exec_wf)
  ultimately show ?case by (rule Cons.IH)
qed

lemma run_keys:
  "run cs w = (rs, w') \<Longrightarrow>
     keygen_of w \<le> keygen_of w' \<and> sorted_wrt (<) (keys_of rs) \<and>
     (\<forall>k\<in>set (keys_of rs). keygen_of w \<le> k \<and> k < keygen_of w')"
proof (induction cs arbitrary: w rs)
  case Nil
  then show ?case by (auto simp: keys_of_def)
next
  case (Cons a cs)
  obtain c e where a: "a = (c, e)" by (cases a)
  obtain r w1 where ex: "exec c e w = (r, w1)" by (cases "exec c e w")
  obtain rs1 where y: "run cs w1 = (rs1, w')" and rs: "rs = r # rs1"
    using Cons.prems a ex by (auto split: prod.splits)
  note ih = Cons.IH [OF y]
  note st = exec_keygen [OF ex]
  have k: "keys_of rs = key_of r @ keys_of rs1"
    by (simp add: rs keys_of_def)
  have "sorted_wrt (<) (key_of r)"
    by (cases r rule: key_of.cases) auto
  with ih st show ?case
    unfolding k by (fastforce simp: sorted_wrt_append)
qed

lemma run_count:
  "run cs w = (rs, w') \<Longrightarrow> \<forall>c\<in>set cs. is_insert (fst c) \<Longrightarrow> \<forall>r\<in>set rs. \<not> isl r \<Longrightarrow>
     length (keys_of rs) = length cs"
proof (induction cs arbitrary: w rs)
  case Nil
  then show ?case by (auto simp: keys_of_def)
next
  case (Cons a cs)
  obtain c e where a: "a = (c, e)" by (cases a)
  obtain r w1 where ex: "exec c e w = (r, w1)" by (cases "exec c e w")
  obtain rs1 where y: "run cs w1 = (rs1, w')" and rs: "rs = r # rs1"
    using Cons.prems(1) a ex by (auto split: prod.splits)
  have "length (key_of r) = 1"
    using Cons.prems(2,3) by (intro exec_insert_key [OF ex]) (auto simp: a rs)
  moreover have "length (keys_of rs1) = length cs"
    using Cons.prems(2,3) by (intro Cons.IH [OF y]) (auto simp: rs)
  ultimately show ?case by (simp add: rs keys_of_def)
qed

lemma run_no_insert:
  "run cs w = (rs, w') \<Longrightarrow> \<forall>c\<in>set cs. \<not> is_insert (fst c) \<Longrightarrow>
     set (stored_of w') \<subseteq> set (stored_of w)"
proof (induction cs arbitrary: w rs)
  case Nil
  then show ?case by simp
next
  case (Cons a cs)
  obtain c e where a: "a = (c, e)" by (cases a)
  obtain r w1 where ex: "exec c e w = (r, w1)" by (cases "exec c e w")
  obtain rs1 where y: "run cs w1 = (rs1, w')"
    using Cons.prems(1) a ex by (auto split: prod.splits)
  have "set (stored_of w1) \<subseteq> set (stored_of w)"
    using Cons.prems(2) by (intro exec_no_insert [OF ex]) (auto simp: a)
  moreover have "set (stored_of w') \<subseteq> set (stored_of w1)"
    using Cons.prems(2) by (intro Cons.IH [OF y]) auto
  ultimately show ?case by blast
qed

lemma run_frame:
  "run cs w = (rs, w') \<Longrightarrow> x \<in> set (stored_of w) \<Longrightarrow>
     \<forall>c\<in>set cs. \<not> deletes (Fin (of_nat (id_r x))) (fst c) \<Longrightarrow> x \<in> set (stored_of w')"
proof (induction cs arbitrary: w rs)
  case Nil
  then show ?case by simp
next
  case (Cons a cs)
  obtain c e where a: "a = (c, e)" by (cases a)
  obtain r w1 where ex: "exec c e w = (r, w1)" by (cases "exec c e w")
  obtain rs1 where y: "run cs w1 = (rs1, w')"
    using Cons.prems(1) a ex by (auto split: prod.splits)
  have "x \<in> set (stored_of w1)"
    using Cons.prems(2,3) by (intro exec_frame [OF ex]) (auto simp: a)
  then show ?case
    using Cons.prems(3) by (intro Cons.IH [OF y]) auto
qed

lemma run_handle:
  "run cs w = (rs, w') \<Longrightarrow> db w = Some h \<Longrightarrow>
     db w' = Some h \<and> conns w' = conns w \<and>
     (\<exists>new. txlog w' = txlog w @ new \<and> (\<forall>t\<in>set new. fst t = h))"
proof (induction cs arbitrary: w rs)
  case Nil
  then show ?case by simp
next
  case (Cons a cs)
  obtain c e where a: "a = (c, e)" by (cases a)
  obtain r w1 where ex: "exec c e w = (r, w1)" by (cases "exec c e w")
  obtain rs1 where y: "run cs w1 = (rs1, w')"
    using Cons.prems(1) a ex by (auto split: prod.splits)
  note st = exec_handle [OF ex Cons.prems(2)]
  note ih = Cons.IH [OF y st(1)]
  from st(3) obtain n1 where n1: "txlog w1 = txlog w @ n1" "\<forall>t\<in>set n1. fst t = h"
    by blast
  from ih obtain n2 where n2: "txlog w' = txlog w1 @ n2" "\<forall>t\<in>set n2. fst t = h"
    by blast
  have "txlog w' = txlog w @ (n1 @ n2) \<and> (\<forall>t\<in>set (n1 @ n2). fst t = h)"
    using n1 n2 by auto
  then show ?case using ih st(2) by metis
qed


section \<open>Evaluation on the sample inputs\<close>

lemmas parse_defs = StringToNumber_def trimString_def isWhiteSpace_def
  nonDecimalIntegerLiteral_def strDecimalLiteral_def strUnsignedDecimalLiteral_def
  isDigit_def exponentPart_def decimalDigits_def radixValue_def radixLiteral_def digitVal_def
  Let_def

lemmas mime_defs = parseMIMEType_def serializeMIMEType_def quoteValue_def parameterStep_def
  addParameter_def strip_def dropTrailing_def isHTTPToken_def isQuotedStringToken_def
  isHTTPWhitespace_def asciiLower_def Let_def


lemma a_txt_fields:
  "name_f a_txt = ''a.txt''" "type_f a_txt = ''text/plain''" "size_f a_txt = 3"
  "bytes_f a_txt = [97, 98, 99]"
  by (simp_all add: a_txt_def size_f_def)

lemma b_bin_fields:
  "name_f b_bin = ''b.bin''" "type_f b_bin = []" "size_f b_bin = 2" "bytes_f b_bin = [0, 255]"
  by (simp_all add: b_bin_def size_f_def)

lemmas call_defs = addFileRecord_def getAllFiles_def deleteFile_def openDB_def transaction_def
  store_add_def store_delete_def createObjectStore_def max_key_def rec.extend_def
  fresh_def no_fault_def a_txt_fields b_bin_fields Let_def

lemma stocked_uploaded: "handleFiles uploads fresh = (None, stocked)"
  by (simp add: handleFiles_def uploads_def fileToDataURL_def readAsDataURL_def serialized_type_def mime_defs sextetChar_def
      alphabet_def toString.simps digitChar_def call_defs stocked_def)

lemma wf_fresh: "wf fresh"
  by (simp add: wf_def fresh_def)

lemma wf_stocked: "wf stocked"
  by (simp add: wf_def store_inv_def stocked_def max_key_def)

lemma toString_1: "toString 1 = ''1''" and toString_2: "toString 2 = ''2''"
  by (simp_all add: toString.simps digitChar_def)

lemma one_is_1: "Number (JStr ''1'') = Fin 1"
  using Number_toString [of 1] unfolding toString_1 by (simp add: max_key_def)

lemma abc_is_NaN: "Number (JStr ''abc'') = NaN"
  by (simp add: parse_defs)

lemma StringToNumber_1: "StringToNumber ''1'' = Fin 1"
  using one_is_1 by simp

lemma StringToNumber_2: "StringToNumber ''2'' = Fin 2"
  using Number_toString [of 2] unfolding toString_2 by (simp add: max_key_def)

lemma StringToNumber_abc: "StringToNumber ''abc'' = NaN"
  using abc_is_NaN by simp

lemmas run_defs = call_defs stocked_def browse_def two_inserts_def churn_def
  StringToNumber_1 StringToNumber_2 StringToNumber_abc

lemma strict_sorted_unique:
  assumes "sorted_wrt (<) (map f xs)" and "x \<in> set xs" and "y \<in> set xs" and "f x = (f y :: nat)"
  shows "x = y"
proof -
  have "distinct (map f xs)"
    using assms(1) by (simp add: strict_sorted_iff)
  then have "inj_on f (set xs)" by (simp add: distinct_map)
  with assms(2-4) show ?thesis by (auto dest: inj_onD)
qed

lemma deleteFile_cong:
  assumes "Number a = Number b"
  shows "deleteFile a e w = deleteFile b e w"
  unfolding deleteFile_def assms by (rule refl)

lemma toString_Suc_0: "toString (Suc 0) = ''1''"
  by (simp add: toString.simps digitChar_def)

lemma wf_key_range:
  assumes "wf w" and "x \<in> set (stored_of w)"
  shows "id_r x \<le> max_key"
  using assms
  by (auto simp: wf_def store_inv_def stored_of_def list_all_iff split: option.splits)

lemma deleteFile_NaN:
  assumes "Number ident = NaN"
  shows "isl (fst (deleteFile ident e w))"
    and "stored_of (snd (deleteFile ident e w)) = stored_of w"
proof -
  obtain r w' where d: "deleteFile ident e w = (r, w')" by (cases "deleteFile ident e w")
  have "isl r"
    using d assms
    by (auto simp: deleteFile_def store_delete_def split: prod.splits sum.splits)
  then obtain err where "r = Inl err" by (cases r) auto
  with d have "stored_of w' = stored_of w" by (simp add: deleteFile_Inl)
  with \<open>isl r\<close> d show "isl (fst (deleteFile ident e w))"
    and "stored_of (snd (deleteFile ident e w)) = stored_of w"
    by simp_all
qed

section \<open>Properties of the upload loop\<close>

lemma uploadLoop_fail:
  "uploadLoop fs w = (Some err, w') \<Longrightarrow>
     \<exists>n w1. n < length fs \<and> uploadLoop (take n fs) w = (None, w1) \<and>
            uploadLoop [fs ! n] w1 = (Some err, w')"
proof (induction fs arbitrary: w)
  case Nil
  then show ?case by simp
next
  case (Cons x fs)
  obtain f now e where x: "x = (f, now, e)" by (cases x)
  show ?case
  proof (cases "uploadLoop [x] w")
    case (Pair r w1)
    show ?thesis
    proof (cases r)
      case None
      with Pair Cons.prems x have "uploadLoop fs w1 = (Some err, w')"
        by (auto split: sum.splits prod.splits)
      from Cons.IH [OF this] obtain n w2 where n: "n < length fs"
        "uploadLoop (take n fs) w1 = (None, w2)" "uploadLoop [fs ! n] w2 = (Some err, w')"
        by blast
      have "uploadLoop (take (Suc n) (x # fs)) w = (None, w2)"
        using Pair None x n(2) by (auto split: sum.splits prod.splits)
      with n(1,3) show ?thesis
        by (intro exI [of _ "Suc n"] exI [of _ w2]) simp
    next
      case (Some err')
      with Pair Cons.prems x have "uploadLoop [x] w = (Some err, w')"
        by (auto split: sum.splits prod.splits)
      then show ?thesis
        by (intro exI [of _ 0] exI [of _ w]) simp
    qed
  qed
qed

lemma addFileRecord_appends:
  assumes "wf w" and "addFileRecord f d t e w = (Inr k, w')"
  shows "stored_of w' = stored_of w @
           [\<lparr>name_r = name_f f, type_r = type_f f, size_r = size_f f,
             uploadedAt_r = t, dataURL_r = d, id_r = k\<rparr>]"
proof -
  note a = addFileRecord_Inr_stored [OF assms(2)]
  have "\<forall>y\<in>set (stored_of w). id_r y < k"
    using wf_stored_below(1) [OF assms(1)] a(3) by simp
  then show ?thesis
    unfolding a(1) by (intro insort_key_last) simp
qed

lemma uploadLoop_ok:
  "wf w \<Longrightarrow> uploadLoop fs w = (None, w') \<Longrightarrow>
     \<exists>ks. length ks = length fs \<and> sorted_wrt (<) ks \<and> (\<forall>k\<in>set ks. keygen_of w \<le> k) \<and>
          stored_of w' = stored_of w @ map2 stored_as fs ks"
proof (induction fs arbitrary: w)
  case Nil
  then show ?case by simp
next
  case (Cons x fs)
  obtain f now e where x: "x = (f, now, e)" by (cases x)
  from Cons.prems(2) x obtain k w1 where
    a: "addFileRecord f (readAsDataURL (written_type e) f) now e w = (Inr k, w1)"
    and l: "uploadLoop fs w1 = (None, w')"
    by (auto simp: fileToDataURL_def split: sum.splits prod.splits if_splits)
  have w1: "wf w1" using a Cons.prems(1) by (rule addFileRecord_wf)
  from Cons.IH [OF w1 l] obtain ks where ks: "length ks = length fs" "sorted_wrt (<) ks"
    "\<forall>j\<in>set ks. keygen_of w1 \<le> j" "stored_of w' = stored_of w1 @ map2 stored_as fs ks"
    by blast
  note g = addFileRecord_Inr_stored(3,4) [OF a]
  have s: "stored_of w1 = stored_of w @ [stored_as x k]"
    using addFileRecord_appends [OF Cons.prems(1) a] by (simp add: stored_as_def x)
  have "length (k # ks) = length (x # fs)" using ks(1) by simp
  moreover have "sorted_wrt (<) (k # ks)" using ks(2,3) g by auto
  moreover have "\<forall>j\<in>set (k # ks). keygen_of w \<le> j" using ks(3) g by auto
  moreover have "stored_of w' = stored_of w @ map2 stored_as (x # fs) (k # ks)"
    using ks(4) s by simp
  ultimately show ?case by blast
qed

lemma uploadLoop_single_fail:
  assumes "uploadLoop [x] w = (Some err, w')"
  shows "stored_of w' = stored_of w"
proof -
  obtain f now e where x: "x = (f, now, e)" by (cases x)
  show ?thesis
  proof (cases "fileToDataURL f e")
    case (Inl a)
    with assms x show ?thesis by simp
  next
    case (Inr d)
    with assms x obtain err' where "addFileRecord f d now e w = (Inl err', w')"
      by (auto split: sum.splits prod.splits)
    then show ?thesis by (rule addFileRecord_Inl(1))
  qed
qed

lemma wf_status: "wf (w\<lparr>status := s\<rparr>) = wf w"
  by (simp add: wf_def split: option.splits)

lemma stored_of_status: "stored_of (w\<lparr>status := s\<rparr>) = stored_of w"
  by (simp add: stored_of_def)

section \<open>Properties of the data URL\<close>






































section \<open>Properties of the size shown\<close>











lemma toFixed2_numeral:
  "toFixed2 (Fin (numeral a / numeral b)) =
     toString (nat \<lfloor>100 * (numeral a / numeral b :: rat) + 1 / 2\<rfloor> div 100) @ ''.'' @
     two_digits (nat \<lfloor>100 * (numeral a / numeral b :: rat) + 1 / 2\<rfloor> mod 100)"
  by (simp add: Let_def)






section \<open>The claims\<close>

text \<open>
  Claim C1. When \<open>addFileRecord\<close> resolves with a key, a \<open>getAllFiles\<close> that follows (and
  whose request does not fail) resolves with a list holding a record whose \<open>id\<close> is that
  key and whose name, type, size, timestamp and data URL are the ones passed in.
\<close>

theorem addFileRecord_listed:
  assumes "addFileRecord f d t e w = (Inr k, w')" and "\<not> request_fails e'"
  shows "\<exists>xs w''. getAllFiles e' w' = (Inr xs, w'') \<and>
           \<lparr>name_r = name_f f, type_r = type_f f, size_r = size_f f,
            uploadedAt_r = t, dataURL_r = d, id_r = k\<rparr> \<in> set xs"
proof -
  from assms(1) obtain h w1 s where o: "openDB e w = (Inr h, w1)" and "files w1 = Some s"
    and w': "w' = w1\<lparr>txlog := txlog w1 @ [(h, ReadWrite)],
                  files := Some \<lparr>records = insort_key id_r
                     \<lparr>name_r = name_f f, type_r = type_f f, size_r = size_f f,
                      uploadedAt_r = t, dataURL_r = d, id_r = k\<rparr> (records s),
                     keygen = k + 1\<rparr>\<rparr>"
    by (rule addFileRecord_Inr)
  from o have "db w1 = Some h" by (rule openDB_Inr)
  then have "db w' = Some h" by (simp add: w')
  then have "openDB e' w' = (Inr h, w')" by (rule openDB_open)
  then show ?thesis using assms(2)
    by (simp add: getAllFiles_def transaction_def w' set_insort_key)
qed

theorem addFileRecord_listed_witness:
  "\<exists>xs w''. getAllFiles no_fault
       (snd (addFileRecord a_txt ''data:text/plain;base64,YWJj'' ''2024-05-01T10:00:00.000Z''
               no_fault fresh)) = (Inr xs, w'') \<and>
     \<lparr>name_r = ''a.txt'', type_r = ''text/plain'', size_r = 3,
      uploadedAt_r = ''2024-05-01T10:00:00.000Z'',
      dataURL_r = ''data:text/plain;base64,YWJj'', id_r = 1\<rparr> \<in> set xs"
proof -
  have h: "addFileRecord a_txt ''data:text/plain;base64,YWJj'' ''2024-05-01T10:00:00.000Z''
             no_fault fresh =
           (Inr 1, snd (addFileRecord a_txt ''data:text/plain;base64,YWJj''
                          ''2024-05-01T10:00:00.000Z'' no_fault fresh))"
    by (simp add: call_defs)
  have nf: "\<not> request_fails no_fault"
    by (simp add: no_fault_def)
  show ?thesis
    using addFileRecord_listed [OF h nf] by (simp add: a_txt_fields)
qed

text \<open>
  Claim C3. With no failure of the engine, \<open>deleteFile\<close> on an id that coerces to a number
  and that no stored record has resolves, and the store holds the same records after it.
\<close>

theorem deleteFile_absent:
  assumes "wf w" and "\<not> open_fails e" and "\<not> request_fails e"
    and "Number ident \<noteq> NaN"
    and "\<forall>x\<in>set (stored_of w). Fin (of_nat (id_r x)) \<noteq> Number ident"
  shows "\<exists>w'. deleteFile ident e w = (Inr (), w') \<and> stored_of w' = stored_of w"
proof -
  obtain h w1 where o: "openDB e w = (Inr h, w1)"
    using openDB_succeeds [OF assms(1,2)] by blast
  then obtain s where s: "files w1 = Some s"
    using openDB_wf_Inr [OF o assms(1)] by blast
  have "\<exists>w'. deleteFile ident e w = (Inr (), w')"
    using o s assms(3,4)
    by (simp add: deleteFile_def transaction_def store_delete_def)
  then obtain w' where d: "deleteFile ident e w = (Inr (), w')" ..
  have "stored_of w' = filter (\<lambda>x. Fin (of_nat (id_r x)) \<noteq> Number ident) (stored_of w)"
    using d by (rule deleteFile_Inr(2))
  also have "\<dots> = stored_of w"
    using assms(5) by (simp add: filter_id_conv)
  finally show ?thesis using d by blast
qed

theorem deleteFile_absent_witness:
  "wf stocked \<and> Number (JNum (Fin 7)) \<noteq> NaN \<and>
   (\<exists>w'. deleteFile (JNum (Fin 7)) no_fault stocked = (Inr (), w') \<and>
          stored_of w' = stored_of stocked)"
proof -
  have h1: "\<not> open_fails no_fault" and h2: "\<not> request_fails no_fault"
    by (simp_all add: no_fault_def)
  have h3: "Number (JNum (Fin 7)) \<noteq> NaN"
    by simp
  have h4: "\<forall>x\<in>set (stored_of stocked). Fin (of_nat (id_r x)) \<noteq> Number (JNum (Fin 7))"
    by (simp add: stored_of_def stocked_def)
  show ?thesis
    using deleteFile_absent [OF wf_stocked h1 h2 h3 h4] wf_stocked h3 by simp
qed

text \<open>
  Claim C2. After \<open>deleteFile\<close> has resolved for an id, and through any further calls that
  are not inserts, a \<open>getAllFiles\<close> that resolves returns no record whose id equals that id.
\<close>

theorem deleteFile_gone:
  assumes "deleteFile ident e w = (Inr u, w1)"
    and "\<forall>c\<in>set cs. \<not> is_insert (fst c)"
    and "run cs w1 = (rs, w2)"
    and "getAllFiles e' w2 = (Inr xs, w3)"
  shows "\<forall>x\<in>set xs. Fin (of_nat (id_r x)) \<noteq> Number ident"
proof -
  have "xs = stored_of w2"
    using assms(4) by (rule getAllFiles_Inr)
  moreover have "set (stored_of w2) \<subseteq> set (stored_of w1)"
    using assms(3,2) by (rule run_no_insert)
  moreover have "stored_of w1 =
      filter (\<lambda>x. Fin (of_nat (id_r x)) \<noteq> Number ident) (stored_of w)"
    using assms(1) by (rule deleteFile_Inr(2))
  ultimately show ?thesis by auto
qed

theorem deleteFile_gone_witness:
  "fst (deleteFile (JStr ''1'') no_fault stocked) = Inr () \<and>
   fst (getAllFiles no_fault (snd (run browse (snd (deleteFile (JStr ''1'') no_fault stocked))))) =
     Inr [\<lparr>name_r = ''b.bin'', type_r = [], size_r = 2,
           uploadedAt_r = ''2024-05-01T10:00:01.000Z'',
           dataURL_r = ''data:application/octet-stream;base64,AP8='', id_r = 2\<rparr>] \<and>
   Fin 2 \<noteq> Number (JStr ''1'')"
proof -
  let ?w1 = "snd (deleteFile (JStr ''1'') no_fault stocked)"
  let ?w2 = "snd (run browse ?w1)"
  let ?b = "\<lparr>name_r = ''b.bin'', type_r = [], size_r = 2,
            uploadedAt_r = ''2024-05-01T10:00:01.000Z'',
            dataURL_r = ''data:application/octet-stream;base64,AP8='', id_r = 2\<rparr>"
  have d1: "fst (deleteFile (JStr ''1'') no_fault stocked) = Inr ()"
    by (simp add: run_defs)
  then have d: "deleteFile (JStr ''1'') no_fault stocked = (Inr (), ?w1)"
    by (simp add: prod_eq_iff)
  have n: "\<forall>c\<in>set browse. \<not> is_insert (fst c)"
    by (simp add: browse_def)
  have r: "run browse ?w1 = (fst (run browse ?w1), ?w2)"
    by simp
  have g1: "fst (getAllFiles no_fault ?w2) = Inr [?b]"
    by (simp add: run_defs)
  then have g: "getAllFiles no_fault ?w2 = (Inr [?b], snd (getAllFiles no_fault ?w2))"
    by (simp add: prod_eq_iff)
  from deleteFile_gone [OF d n r g] have "Fin 2 \<noteq> Number (JStr ''1'')"
    by simp
  with d1 g1 show ?thesis by simp
qed

text \<open>
  Claim C4. Along any sequence of calls from a well-formed store, the ids that the inserts
  resolve with are strictly increasing, hence pairwise distinct, and each is greater than
  every id the store held at the start; when the sequence is N inserts that all resolve,
  there are N of them.
\<close>

theorem insert_ids_fresh:
  assumes "wf w" and "run cs w = (rs, w')"
  shows "sorted_wrt (<) (keys_of rs) \<and> distinct (keys_of rs) \<and>
         (\<forall>k\<in>set (keys_of rs). \<forall>x\<in>set (stored_of w). id_r x < k) \<and>
         ((\<forall>c\<in>set cs. is_insert (fst c)) \<and> (\<forall>r\<in>set rs. \<not> isl r) \<longrightarrow>
            length (keys_of rs) = length cs)"
proof -
  note k = run_keys [OF assms(2)]
  have "sorted_wrt (<) (keys_of rs)" using k by simp
  moreover from this have "distinct (keys_of rs)"
    by (simp add: strict_sorted_iff)
  moreover have "\<forall>k\<in>set (keys_of rs). \<forall>x\<in>set (stored_of w). id_r x < k"
  proof (intro ballI)
    fix j x assume "j \<in> set (keys_of rs)" and "x \<in> set (stored_of w)"
    then have "keygen_of w \<le> j" and "id_r x < keygen_of w"
      using k wf_stored_below(1) [OF assms(1)] by auto
    then show "id_r x < j" by simp
  qed
  moreover have "length (keys_of rs) = length cs"
    if "(\<forall>c\<in>set cs. is_insert (fst c)) \<and> (\<forall>r\<in>set rs. \<not> isl r)"
    using run_count [OF assms(2)] that by simp
  ultimately show ?thesis by blast
qed

theorem insert_ids_fresh_witness:
  "wf stocked \<and> keys_of (fst (run two_inserts stocked)) = [3, 4] \<and>
   sorted_wrt (<) (keys_of (fst (run two_inserts stocked))) \<and>
   distinct (keys_of (fst (run two_inserts stocked))) \<and>
   length (keys_of (fst (run two_inserts stocked))) = length two_inserts"
proof -
  have r: "run two_inserts stocked = (fst (run two_inserts stocked), snd (run two_inserts stocked))"
    by simp
  have a: "(\<forall>c\<in>set two_inserts. is_insert (fst c)) \<and>
           (\<forall>r\<in>set (fst (run two_inserts stocked)). \<not> isl r)"
    by (simp add: run_defs)
  have k: "keys_of (fst (run two_inserts stocked)) = [3, 4]"
    by (simp add: run_defs keys_of_def)
  show ?thesis
    using insert_ids_fresh [OF wf_stocked r] a k wf_stocked by simp
qed

text \<open>
  Claim C6. A record of a well-formed store stays in the store, unchanged, through any
  sequence of calls in which no \<open>deleteFile\<close> is given its id: a \<open>getAllFiles\<close> that
  resolves afterwards lists it, and lists nothing else under its id.
\<close>

theorem stored_record_frame:
  assumes "wf w" and "x \<in> set (stored_of w)"
    and "run cs w = (rs, w')"
    and "\<forall>c\<in>set cs. \<not> deletes (Fin (of_nat (id_r x))) (fst c)"
    and "getAllFiles e w' = (Inr xs, w'')"
  shows "x \<in> set xs \<and> (\<forall>y\<in>set xs. id_r y = id_r x \<longrightarrow> y = x)"
proof -
  have xs: "xs = stored_of w'"
    using assms(5) by (rule getAllFiles_Inr)
  have m: "x \<in> set (stored_of w')"
    using assms(3,2,4) by (rule run_frame)
  have "wf w'" using assms(3,1) by (rule run_wf)
  then have "sorted_wrt (<) (map id_r (stored_of w'))" by (rule wf_sorted)
  then have "y = x" if "y \<in> set (stored_of w')" and "id_r y = id_r x" for y
    using that m by (intro strict_sorted_unique [of id_r "stored_of w'" y x])
  with m show ?thesis unfolding xs by blast
qed

theorem stored_record_frame_witness:
  "wf stocked \<and>
   fst (getAllFiles no_fault (snd (run churn stocked))) =
     Inr [\<lparr>name_r = ''a.txt'', type_r = ''text/plain'', size_r = 3,
           uploadedAt_r = ''2024-05-01T10:00:00.000Z'',
           dataURL_r = ''data:text/plain;base64,YWJj'', id_r = 1\<rparr>,
          \<lparr>name_r = ''b.bin'', type_r = [], size_r = 2,
           uploadedAt_r = ''2024-05-02T08:00:01.000Z'',
           dataURL_r = ''data:application/octet-stream;base64,AP8='', id_r = 3\<rparr>] \<and>
   \<lparr>name_r = ''a.txt'', type_r = ''text/plain'', size_r = 3,
    uploadedAt_r = ''2024-05-01T10:00:00.000Z'',
    dataURL_r = ''data:text/plain;base64,YWJj'', id_r = 1\<rparr>
     \<in> set (stored_of (snd (run churn stocked)))"
proof -
  let ?a = "\<lparr>name_r = ''a.txt'', type_r = ''text/plain'', size_r = 3,
            uploadedAt_r = ''2024-05-01T10:00:00.000Z'',
            dataURL_r = ''data:text/plain;base64,YWJj'', id_r = 1\<rparr>"
  let ?c = "\<lparr>name_r = ''b.bin'', type_r = [], size_r = 2,
            uploadedAt_r = ''2024-05-02T08:00:01.000Z'',
            dataURL_r = ''data:application/octet-stream;base64,AP8='', id_r = 3\<rparr>"
  let ?w' = "snd (run churn stocked)"
  have m: "?a \<in> set (stored_of stocked)"
    by (simp add: stocked_def stored_of_def)
  have r: "run churn stocked = (fst (run churn stocked), ?w')"
    by simp
  have n: "\<forall>c\<in>set churn. \<not> deletes (Fin (of_nat (id_r ?a))) (fst c)"
    by (simp add: churn_def StringToNumber_2)
  have g1: "fst (getAllFiles no_fault ?w') = Inr [?a, ?c]"
    by (simp add: run_defs)
  then have g: "getAllFiles no_fault ?w' = (Inr [?a, ?c], snd (getAllFiles no_fault ?w'))"
    by (simp add: prod_eq_iff)
  have s: "stored_of ?w' = [?a, ?c]"
    by (simp add: run_defs stored_of_def)
  show ?thesis
    using stored_record_frame [OF wf_stocked m r n g] wf_stocked g1 s by simp
qed

text \<open>
  Claim C7. Once \<open>openDB\<close> has resolved with a handle, every later \<open>openDB\<close>, after any
  sequence of calls, resolves with that same handle and changes nothing: no further
  connection is opened, and every transaction started in between is on that handle.
\<close>

theorem openDB_idempotent:
  assumes "openDB e w = (Inr h, w1)" and "run cs w1 = (rs, w2)"
  shows "openDB e' w2 = (Inr h, w2) \<and> conns w2 = conns w1 \<and>
         (\<exists>new. txlog w2 = txlog w1 @ new \<and> (\<forall>t\<in>set new. fst t = h))"
proof -
  have "db w1 = Some h" using assms(1) by (rule openDB_Inr(1))
  note r = run_handle [OF assms(2) this]
  then have "openDB e' w2 = (Inr h, w2)" by (simp add: openDB_open)
  with r show ?thesis by simp
qed


theorem openDB_idempotent_witness:
  "openDB no_fault fresh = (Inr 0, snd (openDB no_fault fresh)) \<and>
   fst (openDB (no_fault\<lparr>open_fails := True\<rparr>) (snd (run churn (snd (openDB no_fault fresh))))) =
     Inr 0 \<and>
   conns (snd (run churn (snd (openDB no_fault fresh)))) = 1 \<and>
   txlog (snd (run churn (snd (openDB no_fault fresh)))) =
     [(0, ReadWrite), (0, ReadWrite), (0, ReadOnly)]"
proof -
  let ?w1 = "snd (openDB no_fault fresh)"
  let ?w2 = "snd (run churn ?w1)"
  have "fst (openDB no_fault fresh) = Inr 0"
    by (simp add: run_defs)
  then have o: "openDB no_fault fresh = (Inr 0, ?w1)"
    by (simp add: prod_eq_iff)
  have r: "run churn ?w1 = (fst (run churn ?w1), ?w2)"
    by simp
  have c: "conns ?w1 = 1" and t: "txlog ?w1 = []"
    by (simp_all add: run_defs)
  have l: "txlog ?w2 = [(0, ReadWrite), (0, ReadWrite), (0, ReadOnly)]"
    by (simp add: run_defs)
  from openDB_idempotent [OF o r, of "no_fault\<lparr>open_fails := True\<rparr>"]
  have "fst (openDB (no_fault\<lparr>open_fails := True\<rparr>) ?w2) = Inr 0" and "conns ?w2 = 1"
    by (simp_all add: c)
  with o l show ?thesis by simp
qed

text \<open>
  Claim C9. \<open>deleteFile\<close> passes \<open>Number(id)\<close> to the store: for a stored record, the call
  with its numeric id and the call with the decimal string of that id are the same call,
  and when it resolves exactly that record is gone; a string that \<open>Number\<close> takes to NaN
  makes the call reject and removes nothing.
\<close>

theorem deleteFile_coerces:
  assumes "wf w" and "x \<in> set (stored_of w)"
  shows "deleteFile (JStr (toString (id_r x))) e w =
           deleteFile (JNum (Fin (of_nat (id_r x)))) e w \<and>
         (\<forall>u w'. deleteFile (JNum (Fin (of_nat (id_r x)))) e w = (Inr u, w') \<longrightarrow>
            stored_of w' = removeAll x (stored_of w)) \<and>
         (\<forall>s. Number (JStr s) = NaN \<longrightarrow>
            isl (fst (deleteFile (JStr s) e w)) \<and>
            stored_of (snd (deleteFile (JStr s) e w)) = stored_of w)"
proof (intro conjI allI impI)
  have "id_r x \<le> max_key"
    using assms by (rule wf_key_range)
  then have "Number (JStr (toString (id_r x))) = Fin (of_nat (id_r x))"
    by (rule Number_toString)
  then have "Number (JStr (toString (id_r x))) = Number (JNum (Fin (of_nat (id_r x))))"
    by simp
  then show "deleteFile (JStr (toString (id_r x))) e w =
      deleteFile (JNum (Fin (of_nat (id_r x)))) e w"
    by (rule deleteFile_cong)
next
  fix u w' assume "deleteFile (JNum (Fin (of_nat (id_r x)))) e w = (Inr u, w')"
  then have "stored_of w' =
      filter (\<lambda>y. Fin (of_nat (id_r y)) \<noteq> Number (JNum (Fin (of_nat (id_r x))))) (stored_of w)"
    by (rule deleteFile_Inr(2))
  also have "\<dots> = filter (\<lambda>y. x \<noteq> y) (stored_of w)"
  proof (rule filter_cong [OF refl])
    fix y assume "y \<in> set (stored_of w)"
    then have "id_r y = id_r x \<longleftrightarrow> y = x"
      using strict_sorted_unique [OF wf_sorted [OF assms(1)], of y x] assms(2) by auto
    then show "(Fin (of_nat (id_r y)) \<noteq> Number (JNum (Fin (of_nat (id_r x))))) = (x \<noteq> y)"
      by auto
  qed
  finally show "stored_of w' = removeAll x (stored_of w)"
    by (simp add: removeAll_filter_not_eq)
next
  fix s assume "Number (JStr s) = NaN"
  then show "isl (fst (deleteFile (JStr s) e w))"
    and "stored_of (snd (deleteFile (JStr s) e w)) = stored_of w"
    by (rule deleteFile_NaN)+
qed

theorem deleteFile_coerces_witness:
  "wf stocked \<and>
   deleteFile (JStr ''1'') no_fault stocked = deleteFile (JNum (Fin 1)) no_fault stocked \<and>
   stored_of (snd (deleteFile (JNum (Fin 1)) no_fault stocked)) =
     [\<lparr>name_r = ''b.bin'', type_r = [], size_r = 2,
       uploadedAt_r = ''2024-05-01T10:00:01.000Z'',
       dataURL_r = ''data:application/octet-stream;base64,AP8='', id_r = 2\<rparr>] \<and>
   Number (JStr ''abc'') = NaN \<and>
   isl (fst (deleteFile (JStr ''abc'') no_fault stocked)) \<and>
   stored_of (snd (deleteFile (JStr ''abc'') no_fault stocked)) = stored_of stocked"
proof -
  let ?a = "\<lparr>name_r = ''a.txt'', type_r = ''text/plain'', size_r = 3,
            uploadedAt_r = ''2024-05-01T10:00:00.000Z'',
            dataURL_r = ''data:text/plain;base64,YWJj'', id_r = 1\<rparr>"
  have m: "?a \<in> set (stored_of stocked)"
    by (simp add: stocked_def stored_of_def)
  have d1: "fst (deleteFile (JNum (Fin 1)) no_fault stocked) = Inr ()"
    by (simp add: run_defs)
  then have d: "deleteFile (JNum (Fin 1)) no_fault stocked =
      (Inr (), snd (deleteFile (JNum (Fin 1)) no_fault stocked))"
    by (simp add: prod_eq_iff)
  have s: "removeAll ?a (stored_of stocked) =
      [\<lparr>name_r = ''b.bin'', type_r = [], size_r = 2,
        uploadedAt_r = ''2024-05-01T10:00:01.000Z'',
        dataURL_r = ''data:application/octet-stream;base64,AP8='', id_r = 2\<rparr>]"
    by (simp add: stocked_def stored_of_def)
  note t = deleteFile_coerces [OF wf_stocked m, of no_fault]
  from t have "deleteFile (JStr ''1'') no_fault stocked = deleteFile (JNum (Fin 1)) no_fault stocked"
    by (simp add: toString_Suc_0)
  moreover from t d have "stored_of (snd (deleteFile (JNum (Fin 1)) no_fault stocked)) =
      removeAll ?a (stored_of stocked)"
    by simp
  moreover from t abc_is_NaN have "isl (fst (deleteFile (JStr ''abc'') no_fault stocked)) \<and>
      stored_of (snd (deleteFile (JStr ''abc'') no_fault stocked)) = stored_of stocked"
    by blast
  ultimately show ?thesis
    using wf_stocked abc_is_NaN s by simp
qed

text \<open>
  Claim C8. \<open>handleFiles\<close> writes the records of the batch one insert after the other, in
  the order of the files and under increasing keys, each insert starting from the store
  the previous one left. When it ends without an error the store holds what it held
  before followed by one record per file. When it ends with an error there is a file
  n+1 at which it stopped: the loop over the first n files ran to its end, the step for
  file n+1 failed, and the store holds what it held before followed by the records of
  the first n files. Nothing is rolled back and no later file is written.
\<close>

theorem handleFiles_inserts:
  assumes "wf w" and "handleFiles fs w = (r, w')"
  shows "\<exists>n ks. n \<le> length fs \<and> length ks = n \<and> sorted_wrt (<) ks \<and>
           stored_of w' = stored_of w @ map2 stored_as (take n fs) ks \<and>
           (case r of
              None \<Rightarrow> n = length fs
            | Some err \<Rightarrow>
                n < length fs \<and>
                (\<exists>w1. uploadLoop (take n fs)
                         (w\<lparr>status := ''Uploading '' @ toString (length fs) @ '' file(s)...''\<rparr>) =
                         (None, w1) \<and>
                       uploadLoop [fs ! n] w1 = (Some err, w')))"
proof (cases "fs = []")
  case True
  with assms(2) have "r = None" and "w' = w"
    by (simp_all add: handleFiles_def)
  with True show ?thesis
    by (intro exI [of _ 0] exI [of _ "[]"]) simp
next
  case False
  let ?w0 = "w\<lparr>status := ''Uploading '' @ toString (length fs) @ '' file(s)...''\<rparr>"
  have w0: "wf ?w0" using assms(1) by (simp only: wf_status)
  show ?thesis
  proof (cases r)
    case None
    with assms(2) False obtain w1 where l: "uploadLoop fs ?w0 = (None, w1)"
      and w': "w' = w1\<lparr>status := ''Uploaded '' @ toString (length fs) @ '' file(s).''\<rparr>"
      by (auto simp: handleFiles_def split: prod.splits option.splits)
    from uploadLoop_ok [OF w0 l] obtain ks where ks: "length ks = length fs"
      "sorted_wrt (<) ks" "stored_of w1 = stored_of ?w0 @ map2 stored_as fs ks"
      by blast
    have "stored_of w' = stored_of w @ map2 stored_as (take (length fs) fs) ks"
      using ks(3) by (simp add: w' stored_of_status)
    with ks(1,2) None show ?thesis
      by (intro exI [of _ "length fs"] exI [of _ ks]) simp
  next
    case (Some err)
    with assms(2) False have "uploadLoop fs ?w0 = (Some err, w')"
      by (auto simp: handleFiles_def split: prod.splits option.splits)
    from uploadLoop_fail [OF this] obtain n w1 where n: "n < length fs"
      and p: "uploadLoop (take n fs) ?w0 = (None, w1)"
      and q: "uploadLoop [fs ! n] w1 = (Some err, w')"
      by blast
    from uploadLoop_ok [OF w0 p] obtain ks where ks: "length ks = length (take n fs)"
      "sorted_wrt (<) ks" "stored_of w1 = stored_of ?w0 @ map2 stored_as (take n fs) ks"
      by blast
    have "stored_of w' = stored_of w @ map2 stored_as (take n fs) ks"
      using uploadLoop_single_fail [OF q] ks(3) by (simp only: stored_of_status)
    moreover have "length ks = n" using ks(1) n by simp
    ultimately show ?thesis
      using n p q ks(2) Some
      by (intro exI [of _ n] exI [of _ ks]) auto
  qed
qed

theorem handleFiles_inserts_witness:
  "wf fresh \<and>
   handleFiles uploads fresh = (None, stocked) \<and>
   (\<exists>ks. length ks = length uploads \<and> sorted_wrt (<) ks \<and>
      stored_of stocked = stored_of fresh @ map2 stored_as uploads ks) \<and>
   stored_of stocked =
     [\<lparr>name_r = ''a.txt'', type_r = ''text/plain'', size_r = 3,
       uploadedAt_r = ''2024-05-01T10:00:00.000Z'',
       dataURL_r = ''data:text/plain;base64,YWJj'', id_r = 1\<rparr>,
      \<lparr>name_r = ''b.bin'', type_r = [], size_r = 2,
       uploadedAt_r = ''2024-05-01T10:00:01.000Z'',
       dataURL_r = ''data:application/octet-stream;base64,AP8='', id_r = 2\<rparr>] \<and>
   fst (handleFiles batch fresh) = Some RequestError \<and>
   (\<exists>n ks. n < length batch \<and> length ks = n \<and> sorted_wrt (<) ks \<and>
      stored_of (snd (handleFiles batch fresh)) =
        stored_of fresh @ map2 stored_as (take n batch) ks) \<and>
   stored_of (snd (handleFiles batch fresh)) =
     [\<lparr>name_r = ''a.txt'', type_r = ''text/plain'', size_r = 3,
       uploadedAt_r = ''2024-05-01T10:00:00.000Z'',
       dataURL_r = ''data:text/plain;base64,YWJj'', id_r = 1\<rparr>]"
proof -
  from handleFiles_inserts [OF wf_fresh stocked_uploaded]
  have ok: "\<exists>ks. length ks = length uploads \<and> sorted_wrt (<) ks \<and>
      stored_of stocked = stored_of fresh @ map2 stored_as uploads ks"
    by auto
  have so: "stored_of stocked =
     [\<lparr>name_r = ''a.txt'', type_r = ''text/plain'', size_r = 3,
       uploadedAt_r = ''2024-05-01T10:00:00.000Z'',
       dataURL_r = ''data:text/plain;base64,YWJj'', id_r = 1\<rparr>,
      \<lparr>name_r = ''b.bin'', type_r = [], size_r = 2,
       uploadedAt_r = ''2024-05-01T10:00:01.000Z'',
       dataURL_r = ''data:application/octet-stream;base64,AP8='', id_r = 2\<rparr>]"
    by (simp add: stocked_def stored_of_def)
  have f: "fst (handleFiles batch fresh) = Some RequestError"
    by (simp add: handleFiles_def batch_def fileToDataURL_def readAsDataURL_def serialized_type_def mime_defs
        sextetChar_def alphabet_def toString.simps digitChar_def call_defs)
  then have h: "handleFiles batch fresh = (Some RequestError, snd (handleFiles batch fresh))"
    by (simp add: prod_eq_iff)
  have s: "stored_of (snd (handleFiles batch fresh)) =
     [\<lparr>name_r = ''a.txt'', type_r = ''text/plain'', size_r = 3,
       uploadedAt_r = ''2024-05-01T10:00:00.000Z'',
       dataURL_r = ''data:text/plain;base64,YWJj'', id_r = 1\<rparr>]"
    by (simp add: handleFiles_def batch_def fileToDataURL_def readAsDataURL_def serialized_type_def mime_defs
        sextetChar_def alphabet_def toString.simps digitChar_def call_defs stored_of_def)
  from handleFiles_inserts [OF wf_fresh h]
  have bad: "\<exists>n ks. n < length batch \<and> length ks = n \<and> sorted_wrt (<) ks \<and>
      stored_of (snd (handleFiles batch fresh)) =
        stored_of fresh @ map2 stored_as (take n batch) ks"
    by auto
  from wf_fresh stocked_uploaded ok so f bad s show ?thesis by blast
qed








end
